theory Spec2Isabelle
  imports Complex_Main
begin

section \<open>Radial distribution descriptors (matminer, structure/distribution.py)\<close>

text \<open>
  The three featurizers of \<^verbatim>\<open>distribution.py\<close> (RDF, PRDF, ReDF) are embedded as HOL
  functions. Python floats are reals; comparisons, bin edges and the values of the
  distributions are those of real arithmetic, and the float operations whose rounding
  decides a number of bins or a bin index are parameters. Every \<^verbatim>\<open>raise\<close> of the
  source, and every exception of the NumPy and pymatgen calls it makes, is a value
  \<open>Inl e\<close>.
\<close>

subsection \<open>Errors\<close>

text \<open>
  The three conditions the source raises itself come first:
  \<^verbatim>\<open>ValueError("Disordered structure support not built yet")\<close>,
  \<^verbatim>\<open>Exception("You must run 'fit' first!")\<close> and
  \<^verbatim>\<open>ValueError("width of bins for ReDF must be >0")\<close>.
  The others are raised inside library calls.
\<close>

datatype error =
    UnsupportedStructure
  | NotFitted
  | InvalidConfiguration
  | ValueError
  | ZeroDivisionError
  | KeyError
  | IndexError
  | AttributeError

subsection \<open>NumPy primitives\<close>

text \<open>
  A float array element is a \<open>real option\<close>: \<open>None\<close> stands for an IEEE special value
  (\<open>inf\<close> or \<open>nan\<close>), which NumPy produces on a division by zero instead of raising. The
  model does not follow special values further: an operation with a \<open>None\<close> operand is
  \<open>None\<close>.
\<close>

definition np_div :: "real option \<Rightarrow> real option \<Rightarrow> real option" where
  "np_div a b =
     (case a of None \<Rightarrow> None
      | Some x \<Rightarrow> (case b of None \<Rightarrow> None
          | Some y \<Rightarrow> if y = 0 then None else Some (x / y)))"

definition np_add :: "real option \<Rightarrow> real option \<Rightarrow> real option" where
  "np_add a b =
     (case a of None \<Rightarrow> None
      | Some x \<Rightarrow> (case b of None \<Rightarrow> None | Some y \<Rightarrow> Some (x + y)))"

text \<open>
  Two float operations round where the source takes the ceiling or the integer part of
  their result: the sum \<^verbatim>\<open>self.cutoff + self.bin_size\<close> and the quotients of
  \<^verbatim>\<open>np.arange\<close> and of the ReDF bins. They are parameters of the model: \<open>fl_add fl x y\<close>
  and \<open>fl_div fl x y\<close> stand for the IEEE double results of \<^verbatim>\<open>x + y\<close> and \<^verbatim>\<open>x / y\<close>.
  \<open>exact_ops\<close> are the operations that never round; the IEEE operations agree with them
  wherever the exact result is a double, as for the small binary fractions of the
  examples below.
\<close>

record float_ops =
  fl_add :: "real \<Rightarrow> real \<Rightarrow> real"
  fl_div :: "real \<Rightarrow> real \<Rightarrow> real"

definition exact_ops :: float_ops where
  "exact_ops = \<lparr>fl_add = (\<lambda>x y. x + y), fl_div = (\<lambda>x y. x / y)\<rparr>"

text \<open>
  \<^verbatim>\<open>np.arange(start, stop, step)\<close>: the ceiling of the float quotient of \<open>stop - start\<close>
  by \<open>step\<close> many values \<open>start + i * step\<close> (none when that number is negative); a zero
  step raises. Both calls of the source have the start 0, for which \<open>stop - start\<close> is
  \<open>stop\<close>.
\<close>

definition np_arange :: "float_ops \<Rightarrow> real \<Rightarrow> real \<Rightarrow> real \<Rightarrow> error + real list" where
  "np_arange fl start stop step =
     (if step = 0 then Inl ZeroDivisionError
      else Inr (map (\<lambda>i. start + real i * step)
                  [0 ..< nat \<lceil>fl_div fl (stop - start) step\<rceil>]))"

text \<open>
  \<^verbatim>\<open>np.histogram(a, bins=edges, density=False)\<close> with an array of edges. NumPy refuses
  edges that decrease somewhere, sorts the data, takes for every edge but the last the
  insertion point on the left (the number of values below the edge) and for the last
  edge the insertion point on the right, and returns the differences of these
  cumulative counts.
\<close>

definition searchsorted_left :: "real list \<Rightarrow> real \<Rightarrow> nat" where
  "searchsorted_left sa v = length (takeWhile (\<lambda>x. x < v) sa)"

definition searchsorted_right :: "real list \<Rightarrow> real \<Rightarrow> nat" where
  "searchsorted_right sa v = length (takeWhile (\<lambda>x. x \<le> v) sa)"

definition search_sorted_inclusive :: "real list \<Rightarrow> real list \<Rightarrow> nat list" where
  "search_sorted_inclusive sa v =
     map (searchsorted_left sa) (butlast v) @
     map (searchsorted_right sa) (drop (length v - 1) v)"

definition np_diff :: "int list \<Rightarrow> int list" where
  "np_diff c = map (\<lambda>(hi, lo). hi - lo) (zip (tl c) (butlast c))"

definition bins_decrease :: "real list \<Rightarrow> bool" where
  "bins_decrease bins = list_ex (\<lambda>(lo, hi). lo > hi) (zip (butlast bins) (tl bins))"

definition np_histogram :: "real list \<Rightarrow> real list \<Rightarrow> error + int list" where
  "np_histogram a bins =
     (if bins_decrease bins then Inl ValueError
      else Inr (np_diff (map int (search_sorted_inclusive (sort a) bins))))"


subsection \<open>Structures (pymatgen)\<close>

text \<open>
  A species is a plain element or an element with an oxidation state. A site holds its
  species with their occupancies; it is ordered when it holds one species with
  occupancy 1, and only then does \<^verbatim>\<open>site.specie\<close> return (pymatgen raises
  \<^verbatim>\<open>AttributeError\<close> otherwise).
\<close>

datatype specie = Element string | Specie string real

record site =
  species :: "(specie \<times> real) list"
  coords :: "real \<times> real \<times> real"

definition site_is_ordered :: "site \<Rightarrow> bool" where
  "site_is_ordered st \<longleftrightarrow> sum_list (map snd (species st)) = 1 \<and> length (species st) = 1"

definition site_specie :: "site \<Rightarrow> error + specie" where
  "site_specie st =
     (if \<not> site_is_ordered st then Inl AttributeError
      else (case species st of [] \<Rightarrow> Inl AttributeError | (sp, occu) # _ \<Rightarrow> Inr sp))"

text \<open>
  What the engines read of a structure. The sites and the cell are data; the neighbour
  search, the composition and its reduced fractional dictionary are the results of the
  external collaborators, taken as given: \<open>get_all_neighbors s r\<close> is one list of
  (neighbour site, distance) pairs per site, \<open>get_neighbors s st r\<close> the list of one site,
  \<open>composition s\<close> the species with their amounts and \<open>to_reduced_dict s\<close> the value of
  \<^verbatim>\<open>s.composition.fractional_composition.to_reduced_dict\<close>, keyed by element symbol.
\<close>

type_synonym vec3 = "real \<times> real \<times> real"

record struct =
  sites :: "site list"
  volume :: real
  lattice_matrix :: "vec3 \<times> vec3 \<times> vec3"
  get_all_neighbors :: "real \<Rightarrow> (site \<times> real) list list"
  get_neighbors :: "site \<Rightarrow> real \<Rightarrow> (site \<times> real) list"
  composition :: "(specie \<times> real) list"
  to_reduced_dict :: "(string \<times> real) list"

definition is_ordered :: "struct \<Rightarrow> bool" where
  "is_ordered s = list_all site_is_ordered (sites s)"

definition num_sites :: "struct \<Rightarrow> nat" where
  "num_sites s = length (sites s)"

subsection \<open>Shared binning and normalisation\<close>

record rdf =
  cutoff :: real
  bin_size :: real

text \<open>
  \<^verbatim>\<open>np.arange(0, self.cutoff + self.bin_size, self.bin_size)\<close>: the body of PRDF's
  \<^verbatim>\<open>_make_bins\<close> and the \<^verbatim>\<open>bins\<close> argument of the RDF engine.
\<close>

definition make_bins :: "float_ops \<Rightarrow> 'a rdf_scheme \<Rightarrow> error + real list" where
  "make_bins fl self =
     np_arange fl 0 (fl_add fl (cutoff self) (bin_size self)) (bin_size self)"

text \<open>
  \<^verbatim>\<open>4.0 / 3.0 * math.pi * (np.power(dist_bins[1:], 3) - np.power(dist_bins[:-1], 3))\<close>
\<close>

definition shell_volume :: "real list \<Rightarrow> real list" where
  "shell_volume dist_bins =
     map (\<lambda>(hi, lo). 4 / 3 * pi * (hi ^ 3 - lo ^ 3)) (zip (tl dist_bins) (butlast dist_bins))"

text \<open>
  \<^verbatim>\<open>dist_hist / shell_vol / x\<close>, element by element; \<open>x\<close> is the number density (RDF) or
  \<^verbatim>\<open>n_alpha\<close> (PRDF). Both arrays have one entry per bin.
\<close>

definition normalize_counts :: "int list \<Rightarrow> real list \<Rightarrow> real option \<Rightarrow> real option list" where
  "normalize_counts dist_hist shell_vol x =
     map (\<lambda>(h, v). np_div (np_div (Some (real_of_int h)) (Some v)) x) (zip dist_hist shell_vol)"

subsection \<open>RadialDistributionFunction\<close>

record distribution_result =
  distances :: "real list"
  distribution :: "real option list"

definition rdf_init :: "real \<Rightarrow> real \<Rightarrow> rdf" where
  "rdf_init c b = \<lparr>cutoff = c, bin_size = b\<rparr>"

text \<open>\<^verbatim>\<open>np.concatenate\<close> of a sequence of arrays; an empty sequence raises.\<close>

definition np_concatenate :: "'a list list \<Rightarrow> error + 'a list" where
  "np_concatenate arrs = (if arrs = [] then Inl ValueError else Inr (concat arrs))"

definition rdf_featurize :: "float_ops \<Rightarrow> rdf \<Rightarrow> struct \<Rightarrow> error + distribution_result list" where
  "rdf_featurize fl self s =
     (if \<not> is_ordered s then Inl UnsupportedStructure
      else
        let neighbors_lst = get_all_neighbors s (cutoff self) in
        case np_concatenate (map (map snd) neighbors_lst) of
          Inl e \<Rightarrow> Inl e
        | Inr all_distances \<Rightarrow>
            (case make_bins fl self of
               Inl e \<Rightarrow> Inl e
             | Inr bins \<Rightarrow>
                 (case np_histogram all_distances bins of
                    Inl e \<Rightarrow> Inl e
                  | Inr dist_hist \<Rightarrow>
                      let shell_vol = shell_volume bins;
                          number_density = np_div (Some (real (num_sites s))) (Some (volume s));
                          rdf = normalize_counts dist_hist shell_vol number_density
                      in Inr [\<lparr>distances = butlast bins, distribution = rdf\<rparr>])))"

subsection \<open>PartialRadialDistributionFunction\<close>

text \<open>The field \<open>elements'\<close> is the attribute \<^verbatim>\<open>elements_\<close>; \<open>None\<close> before \<^verbatim>\<open>fit\<close>.\<close>

record prdf = rdf +
  elements' :: "string list option"
  include_elems :: "string list"
  exclude_elems :: "string list"

definition prdf_init :: "real \<Rightarrow> real \<Rightarrow> string list \<Rightarrow> string list \<Rightarrow> prdf" where
  "prdf_init c b inc exc =
     \<lparr>cutoff = c, bin_size = b, elements' = None, include_elems = inc, exclude_elems = exc\<rparr>"

text \<open>
  \<^verbatim>\<open>fit\<close>. An element is identified by its symbol. pymatgen's periodic table is a
  parameter: \<open>is_symbol\<close> says for which strings \<^verbatim>\<open>Element(e)\<close> returns (it raises
  \<^verbatim>\<open>ValueError\<close> for the others) and \<open>order_key\<close> is the key by which elements compare
  (\<^verbatim>\<open>Element.__lt__\<close>). The Python set is a list without repetition; \<^verbatim>\<open>sorted\<close> is
  the sort by that key.
\<close>

definition base_element :: "specie \<Rightarrow> string" where
  "base_element e = (case e of Specie el q \<Rightarrow> el | Element el \<Rightarrow> el)"

definition Elements :: "(string \<Rightarrow> bool) \<Rightarrow> string list \<Rightarrow> error + string list" where
  "Elements is_symbol syms = (if list_all is_symbol syms then Inr syms else Inl ValueError)"

definition set_update :: "'a list \<Rightarrow> 'a list \<Rightarrow> 'a list" where
  "set_update els new = fold List.insert new els"

definition prdf_fit ::
  "(string \<Rightarrow> bool) \<Rightarrow> (string \<Rightarrow> 'k::linorder) \<Rightarrow> 'a prdf_scheme \<Rightarrow> struct list
     \<Rightarrow> error + 'a prdf_scheme" where
  "prdf_fit is_symbol order_key self X =
     (case Elements is_symbol (include_elems self) of
        Inl e \<Rightarrow> Inl e
      | Inr inc \<Rightarrow>
          let elements =
                fold (\<lambda>strc els. set_update els (map (base_element \<circ> fst) (composition strc)))
                  X (set_update [] inc)
          in (case Elements is_symbol (exclude_elems self) of
                Inl e \<Rightarrow> Inl e
              | Inr exc \<Rightarrow>
                  Inr (self\<lparr>elements' :=
                         Some (sort_key order_key (filter (\<lambda>e. e \<notin> set exc) elements))\<rparr>)))"

text \<open>\<^verbatim>\<open>get_symbol\<close>, the local function of \<^verbatim>\<open>compute_prdf\<close>.\<close>

definition get_symbol :: "site \<Rightarrow> error + string" where
  "get_symbol st =
     (case site_specie st of
        Inl e \<Rightarrow> Inl e
      | Inr sp \<Rightarrow> Inr (case sp of Element el \<Rightarrow> el | Specie el q \<Rightarrow> el))"

text \<open>
  The dictionary \<^verbatim>\<open>distances_by_type\<close> is a map from element pairs to distance lists.
  The inner loop appends the distances of one site's neighbours, the outer loop runs
  over \<^verbatim>\<open>zip(s.sites, neighbors_lst)\<close>; a pair that is no key raises \<^verbatim>\<open>KeyError\<close>.
\<close>

type_synonym distances_by_type = "string \<times> string \<rightharpoonup> real list"

fun append_neighbors ::
  "string \<Rightarrow> distances_by_type \<Rightarrow> (site \<times> real) list \<Rightarrow> error + distances_by_type" where
  "append_neighbors my_elem dbt [] = Inr dbt"
| "append_neighbors my_elem dbt ((nsite, rij) # nlst) =
     (case get_symbol nsite of
        Inl e \<Rightarrow> Inl e
      | Inr n_elem \<Rightarrow>
          (case dbt (my_elem, n_elem) of
             None \<Rightarrow> Inl KeyError
           | Some ds \<Rightarrow> append_neighbors my_elem (dbt((my_elem, n_elem) \<mapsto> ds @ [rij])) nlst))"

fun sort_neighbors ::
  "distances_by_type \<Rightarrow> (site \<times> (site \<times> real) list) list \<Rightarrow> error + distances_by_type" where
  "sort_neighbors dbt [] = Inr dbt"
| "sort_neighbors dbt ((st, nlst) # rest) =
     (case get_symbol st of
        Inl e \<Rightarrow> Inl e
      | Inr my_elem \<Rightarrow>
          (case append_neighbors my_elem dbt nlst of
             Inl e \<Rightarrow> Inl e
           | Inr dbt' \<Rightarrow> sort_neighbors dbt' rest))"

text \<open>
  The loop \<^verbatim>\<open>for key, distances in distances_by_type.items()\<close>: histogram, division by
  the shell volumes and by \<^verbatim>\<open>n_alpha = composition[key[0]] * s.num_sites\<close>.
\<close>

type_synonym prdf_dict = "string \<times> string \<rightharpoonup> real option list"

fun normalize_prdfs ::
  "(string \<times> real) list \<Rightarrow> nat \<Rightarrow> real list \<Rightarrow> real list \<Rightarrow> distances_by_type
     \<Rightarrow> prdf_dict \<Rightarrow> (string \<times> string) list \<Rightarrow> error + prdf_dict" where
  "normalize_prdfs reduced n dist_bins shell_vol dbt prdf [] = Inr prdf"
| "normalize_prdfs reduced n dist_bins shell_vol dbt prdf (key # keys) =
     (case dbt key of
        None \<Rightarrow> Inl KeyError
      | Some dists \<Rightarrow>
          (case np_histogram dists dist_bins of
             Inl e \<Rightarrow> Inl e
           | Inr dist_hist \<Rightarrow>
               (case map_of reduced (fst key) of
                  None \<Rightarrow> Inl KeyError
                | Some amount \<Rightarrow>
                    let n_alpha = amount * real n;
                        rdf = normalize_counts dist_hist shell_vol (Some n_alpha)
                    in normalize_prdfs reduced n dist_bins shell_vol dbt (prdf(key \<mapsto> rdf)) keys)))"

definition compute_prdf :: "float_ops \<Rightarrow> 'a prdf_scheme \<Rightarrow> struct \<Rightarrow> error + (real list \<times> prdf_dict)" where
  "compute_prdf fl self s =
     (let reduced = to_reduced_dict s;
          neighbors_lst = get_all_neighbors s (cutoff self);
          keys = List.product (map fst reduced) (map fst reduced);
          distances_by_type = fold (\<lambda>p dbt. dbt(p \<mapsto> [])) keys Map.empty
      in case sort_neighbors distances_by_type (zip (sites s) neighbors_lst) of
           Inl e \<Rightarrow> Inl e
         | Inr distances_by_type \<Rightarrow>
             (case make_bins fl self of
                Inl e \<Rightarrow> Inl e
              | Inr dist_bins \<Rightarrow>
                  (case normalize_prdfs reduced (num_sites s) dist_bins
                          (shell_volume dist_bins) distances_by_type Map.empty keys of
                     Inl e \<Rightarrow> Inl e
                   | Inr prdf \<Rightarrow> Inr (butlast dist_bins, prdf))))"

text \<open>\<^verbatim>\<open>itertools.combinations_with_replacement(xs, 2)\<close>\<close>

fun combinations_with_replacement :: "'a list \<Rightarrow> ('a \<times> 'a) list" where
  "combinations_with_replacement [] = []"
| "combinations_with_replacement (x # xs) =
     map (Pair x) (x # xs) @ combinations_with_replacement xs"

text \<open>\<^verbatim>\<open>np.hstack\<close> of a list of one-dimensional arrays; an empty list raises.\<close>

definition np_hstack :: "'a list list \<Rightarrow> error + 'a list" where
  "np_hstack arrs = (if arrs = [] then Inl ValueError else Inr (concat arrs))"

definition prdf_featurize :: "float_ops \<Rightarrow> 'a prdf_scheme \<Rightarrow> struct \<Rightarrow> error + real option list" where
  "prdf_featurize fl self s =
     (if \<not> is_ordered s then Inl UnsupportedStructure
      else
        case elements' self of
          None \<Rightarrow> Inl NotFitted
        | Some els \<Rightarrow>
            (case compute_prdf fl self s of
               Inl e \<Rightarrow> Inl e
             | Inr (dist_bins, prdf) \<Rightarrow>
                 let zeros = replicate (length dist_bins) (Some 0);
                     output = map (\<lambda>key. case prdf key of None \<Rightarrow> zeros | Some v \<Rightarrow> v)
                                (combinations_with_replacement els)
                 in np_hstack output))"

text \<open>
  \<^verbatim>\<open>feature_labels\<close>; \<open>fmt e1 e2 r_start r_end\<close> stands for
  \<^verbatim>\<open>"{}-{} PRDF r={:.2f}-{:.2f}".format(e1, e2, r_start, r_end)\<close>.
\<close>

definition prdf_feature_labels ::
  "float_ops \<Rightarrow> (string \<Rightarrow> string \<Rightarrow> real \<Rightarrow> real \<Rightarrow> string) \<Rightarrow> 'a prdf_scheme \<Rightarrow> error + string list" where
  "prdf_feature_labels fl fmt self =
     (case elements' self of
        None \<Rightarrow> Inl NotFitted
      | Some els \<Rightarrow>
          (case make_bins fl self of
             Inl e \<Rightarrow> Inl e
           | Inr bin_edges \<Rightarrow>
               Inr (concat (map (\<lambda>(e1, e2).
                      map (\<lambda>(r_start, r_end). fmt e1 e2 r_start r_end)
                        (zip bin_edges (tl bin_edges)))
                    (combinations_with_replacement els)))))"


subsection \<open>ElectronicRadialDistributionFunction\<close>

record redf =
  redf_cutoff :: "real option"
  dr :: real

definition redf_init :: "real option \<Rightarrow> real \<Rightarrow> redf" where
  "redf_init c w = \<lparr>redf_cutoff = c, dr = w\<rparr>"

text \<open>The default cutoff: the longest of the four space diagonals of the cell.\<close>

definition vadd :: "vec3 \<Rightarrow> vec3 \<Rightarrow> vec3" where
  "vadd u v = (case u of (x, y, z) \<Rightarrow> (case v of (x', y', z') \<Rightarrow> (x + x', y + y', z + z')))"

definition vneg :: "vec3 \<Rightarrow> vec3" where
  "vneg u = (case u of (x, y, z) \<Rightarrow> (- x, - y, - z))"

definition linalg_norm :: "vec3 \<Rightarrow> real" where
  "linalg_norm u = (case u of (x, y, z) \<Rightarrow> sqrt (x ^ 2 + y ^ 2 + z ^ 2))"

definition longest_diagonal :: "vec3 \<times> vec3 \<times> vec3 \<Rightarrow> real" where
  "longest_diagonal m =
     (case m of (a, b, c) \<Rightarrow>
        max (linalg_norm (vadd (vadd a b) c))
          (max (linalg_norm (vadd (vadd (vneg a) b) c))
             (max (linalg_norm (vadd (vadd a (vneg b)) c))
                  (linalg_norm (vadd (vadd a b) (vneg c))))))"

text \<open>
  \<^verbatim>\<open>float(site.specie.oxi_state)\<close>: the site must be ordered, and a plain element has no
  oxidation state.
\<close>

definition oxi_state :: "site \<Rightarrow> error + real" where
  "oxi_state st =
     (case site_specie st of
        Inl e \<Rightarrow> Inl e
      | Inr sp \<Rightarrow> (case sp of Element el \<Rightarrow> Inl AttributeError | Specie el q \<Rightarrow> Inr q))"

text \<open>\<^verbatim>\<open>int(x)\<close> of a float truncates towards zero.\<close>

definition py_int :: "real \<Rightarrow> int" where
  "py_int x = (if 0 \<le> x then \<lfloor>x\<rfloor> else \<lceil>x\<rceil>)"

text \<open>An index into an array of \<open>n\<close> entries; a negative index counts from the end.\<close>

definition np_index :: "nat \<Rightarrow> int \<Rightarrow> error + nat" where
  "np_index n i =
     (let j = (if i < 0 then int n + i else i)
      in if 0 \<le> j \<and> j < int n then Inr (nat j) else Inl IndexError)"

text \<open>The inner loop over the neighbours of one site, and the outer loop over the sites.\<close>

fun redf_neighbors ::
  "float_ops \<Rightarrow> real \<Rightarrow> nat \<Rightarrow> real \<Rightarrow> real option list \<Rightarrow> (site \<times> real) list
     \<Rightarrow> error + real option list" where
  "redf_neighbors fl w n this_charge distr [] = Inr distr"
| "redf_neighbors fl w n this_charge distr ((nnsite, dist') # rest) =
     (case oxi_state nnsite of
        Inl e \<Rightarrow> Inl e
      | Inr neigh_charge \<Rightarrow>
          (case np_index (length distr) (py_int (fl_div fl dist' w)) of
             Inl e \<Rightarrow> Inl e
           | Inr bin_index \<Rightarrow>
               redf_neighbors fl w n this_charge
                 (distr[bin_index :=
                    np_add (distr ! bin_index)
                      (np_div (Some (this_charge * neigh_charge)) (Some (real n * dist')))])
                 rest))"

fun redf_sites ::
  "float_ops \<Rightarrow> real \<Rightarrow> real \<Rightarrow> struct \<Rightarrow> real option list \<Rightarrow> site list \<Rightarrow> error + real option list" where
  "redf_sites fl w c strc distr [] = Inr distr"
| "redf_sites fl w c strc distr (st # rest) =
     (case oxi_state st of
        Inl e \<Rightarrow> Inl e
      | Inr this_charge \<Rightarrow>
          (case redf_neighbors fl w (num_sites strc) this_charge distr (get_neighbors strc st c) of
             Inl e \<Rightarrow> Inl e
           | Inr distr' \<Rightarrow> redf_sites fl w c strc distr' rest))"

text \<open>
  \<^verbatim>\<open>featurize\<close>. The two collaborators are parameters: \<open>find_primitive\<close> is
  \<^verbatim>\<open>SpacegroupAnalyzer(s).find_primitive()\<close> (\<open>None\<close> when no primitive cell is found; a
  structure without sites is false in Python, so \<^verbatim>\<open>or s\<close> replaces it too) and
  \<open>add_oxidation_states\<close> is \<^verbatim>\<open>ValenceIonicRadiusEvaluator(struct).structure\<close>.
  \<open>redf_struct\<close> is the structure the loops run on and \<open>redf_resolved_cutoff\<close> the value
  of \<^verbatim>\<open>self.cutoff\<close> after the default has been set. The call may set
  \<^verbatim>\<open>self.cutoff\<close>, so it returns the engine with its result.
\<close>

definition redf_struct :: "(struct \<Rightarrow> struct option) \<Rightarrow> (struct \<Rightarrow> struct) \<Rightarrow> struct \<Rightarrow> struct" where
  "redf_struct find_primitive add_oxidation_states s =
     add_oxidation_states
       (case find_primitive s of
          None \<Rightarrow> s
        | Some p \<Rightarrow> if sites p = [] then s else p)"

definition redf_resolved_cutoff :: "redf \<Rightarrow> struct \<Rightarrow> real" where
  "redf_resolved_cutoff self strc =
     (case redf_cutoff self of
        None \<Rightarrow> longest_diagonal (lattice_matrix strc)
      | Some c \<Rightarrow> c)"

definition redf_featurize ::
  "float_ops \<Rightarrow> (struct \<Rightarrow> struct option) \<Rightarrow> (struct \<Rightarrow> struct) \<Rightarrow> redf \<Rightarrow> struct
     \<Rightarrow> redf \<times> (error + distribution_result list)" where
  "redf_featurize fl find_primitive add_oxidation_states self s =
     (if dr self \<le> 0 then (self, Inl InvalidConfiguration)
      else
        let strc = redf_struct find_primitive add_oxidation_states s;
            c = redf_resolved_cutoff self strc;
            self = self\<lparr>redf_cutoff := Some c\<rparr>;
            nbins = py_int (fl_div fl c (dr self)) + 1
        in if nbins < 0 then (self, Inl ValueError)
           else
             (case redf_sites fl (dr self) c strc (replicate (nat nbins) (Some 0)) (sites strc) of
                Inl e \<Rightarrow> (self, Inl e)
              | Inr distr \<Rightarrow>
                  (self,
                   Inr [\<lparr>distances = map (\<lambda>i. (real i + 0.5) * dr self) [0 ..< nat nbins],
                         distribution = distr\<rparr>])))"

subsection \<open>Buckets, for the statements about the PRDF\<close>

text \<open>
  \<open>bucket (e1, e2) zs\<close> lists, in the order of the loops, the distances from the sites whose
  element is \<open>e1\<close> to their neighbours whose element is \<open>e2\<close>; \<open>zs\<close> pairs every site with
  its neighbour list. The theorems compare \<^verbatim>\<open>distances_by_type\<close> with it.
\<close>

definition bucket :: "string \<times> string \<Rightarrow> (site \<times> (site \<times> real) list) list \<Rightarrow> real list" where
  "bucket key zs =
     concat (map (\<lambda>(st, nlst).
        if get_symbol st = Inr (fst key)
        then map snd (filter (\<lambda>(nsite, rij). get_symbol nsite = Inr (snd key)) nlst)
        else []) zs)"

text \<open>
  \<open>known_symbols s r\<close>: every site of \<open>s\<close> and every neighbour within \<open>r\<close> is an ordered site
  whose element is a key of the composition dictionary, which is what the neighbour
  search and the composition of one structure give.
\<close>

definition known_symbols :: "struct \<Rightarrow> real \<Rightarrow> bool" where
  "known_symbols s r =
     list_all (\<lambda>(st, nlst).
        (case get_symbol st of
           Inl e \<Rightarrow> False
         | Inr my_elem \<Rightarrow> my_elem \<in> set (map fst (to_reduced_dict s))) \<and>
        list_all (\<lambda>(nsite, rij).
          (case get_symbol nsite of
             Inl e \<Rightarrow> False
           | Inr n_elem \<Rightarrow> n_elem \<in> set (map fst (to_reduced_dict s)))) nlst)
       (zip (sites s) (get_all_neighbors s r))"

subsection \<open>Contributions, for the statements about the ReDF\<close>

text \<open>
  \<open>charge_of st\<close> is the oxidation state of an ordered site of a charged species.
  \<open>redf_terms fl w c strc sts i\<close> lists, for the sites \<open>sts\<close> in turn and for each of their
  neighbours at a distance \<open>d\<close> whose float quotient by \<open>w\<close> has the integer part \<open>i\<close>, the
  quotient of the charge product by \<open>num_sites * d\<close>.
\<close>

definition charge_of :: "site \<Rightarrow> real" where
  "charge_of st = (case oxi_state st of Inl e \<Rightarrow> 0 | Inr q \<Rightarrow> q)"

definition redf_terms ::
  "float_ops \<Rightarrow> real \<Rightarrow> real \<Rightarrow> struct \<Rightarrow> site list \<Rightarrow> nat \<Rightarrow> real list" where
  "redf_terms fl w c strc sts i =
     concat (map (\<lambda>st.
        map (\<lambda>(nnsite, d). charge_of st * charge_of nnsite / (real (num_sites strc) * d))
          (filter (\<lambda>(nnsite, d). \<lfloor>fl_div fl d w\<rfloor> = int i) (get_neighbors strc st c))) sts)"

text \<open>
  What the statements take from the collaborators and from IEEE arithmetic.
  \<open>positive_distances strc c\<close>: the neighbour search excludes the site itself, so every
  distance is positive. \<open>charged_neighbors strc c\<close>: every site and every neighbour carries
  a charge, and every distance is positive and at most the cutoff.
  \<open>rounds_monotone fl\<close>: the float quotient by a positive number is monotone in its
  numerator and is 0 for the numerator 0, as a correctly rounded quotient is.
\<close>

definition positive_distances :: "struct \<Rightarrow> real \<Rightarrow> bool" where
  "positive_distances strc c =
     list_all (\<lambda>st. list_all (\<lambda>(nnsite, d). 0 < d) (get_neighbors strc st c)) (sites strc)"

definition charged_neighbors :: "struct \<Rightarrow> real \<Rightarrow> bool" where
  "charged_neighbors strc c =
     list_all (\<lambda>st.
        (case oxi_state st of Inl e \<Rightarrow> False | Inr q \<Rightarrow> True) \<and>
        list_all (\<lambda>(nnsite, d).
           (case oxi_state nnsite of Inl e \<Rightarrow> False | Inr q \<Rightarrow> True) \<and> 0 < d \<and> d \<le> c)
          (get_neighbors strc st c))
       (sites strc)"

definition rounds_monotone :: "float_ops \<Rightarrow> bool" where
  "rounds_monotone fl \<longleftrightarrow>
     (\<forall>x y w. 0 < w \<and> x \<le> y \<longrightarrow> fl_div fl x w \<le> fl_div fl y w) \<and>
     (\<forall>w. 0 < w \<longrightarrow> fl_div fl 0 w = 0)"

subsection \<open>Example structures\<close>

text \<open>
  Inputs on which the theorems below are instantiated. \<open>fe_cubic\<close> is a simple cubic cell
  of edge 1 with one iron atom: no neighbour below distance 1 and six at distance 1 (the
  neighbour lists are those of a cutoff below \<open>sqrt 2\<close>). \<open>nacl_chain\<close> is a cell 2 x 10 x 10 with a
  sodium and a chlorine ion alternating along the first axis at spacing 1: within a
  cutoff of 2 every ion has two neighbours of the other kind at distance 1 and two of
  its own kind at distance 2. \<open>feni_alloy\<close> has one site shared by iron and nickel.
\<close>

definition fe_site :: site where
  "fe_site = \<lparr>species = [(Element ''Fe'', 1)], coords = (0, 0, 0)\<rparr>"

definition fe_cubic :: struct where
  "fe_cubic =
     \<lparr>sites = [fe_site], volume = 1,
      lattice_matrix = ((1, 0, 0), (0, 1, 0), (0, 0, 1)),
      get_all_neighbors = (\<lambda>r. [if r < 1 then [] else replicate 6 (fe_site, 1)]),
      get_neighbors = (\<lambda>st r. if r < 1 then [] else replicate 6 (fe_site, 1)),
      composition = [(Element ''Fe'', 1)],
      to_reduced_dict = [(''Fe'', 1)]\<rparr>"

definition na_site :: site where
  "na_site = \<lparr>species = [(Specie ''Na'' 1, 1)], coords = (0, 0, 0)\<rparr>"

definition cl_site :: site where
  "cl_site = \<lparr>species = [(Specie ''Cl'' (- 1), 1)], coords = (1 / 2, 0, 0)\<rparr>"

definition nacl_chain :: struct where
  "nacl_chain =
     \<lparr>sites = [na_site, cl_site], volume = 200,
      lattice_matrix = ((2, 0, 0), (0, 10, 0), (0, 0, 10)),
      get_all_neighbors =
        (\<lambda>r. [[(cl_site, 1), (cl_site, 1), (na_site, 2), (na_site, 2)],
              [(na_site, 1), (na_site, 1), (cl_site, 2), (cl_site, 2)]]),
      get_neighbors =
        (\<lambda>st r. if st = na_site then [(cl_site, 1), (cl_site, 1), (na_site, 2), (na_site, 2)]
                 else [(na_site, 1), (na_site, 1), (cl_site, 2), (cl_site, 2)]),
      composition = [(Specie ''Na'' 1, 1), (Specie ''Cl'' (- 1), 1)],
      to_reduced_dict = [(''Na'', 1 / 2), (''Cl'', 1 / 2)]\<rparr>"

definition feni_site :: site where
  "feni_site = \<lparr>species = [(Element ''Fe'', 1 / 2), (Element ''Ni'', 1 / 2)], coords = (0, 0, 0)\<rparr>"

definition feni_alloy :: struct where
  "feni_alloy =
     \<lparr>sites = [feni_site], volume = 1,
      lattice_matrix = ((1, 0, 0), (0, 1, 0), (0, 0, 1)),
      get_all_neighbors = (\<lambda>r. [replicate 6 (feni_site, 1)]),
      get_neighbors = (\<lambda>st r. replicate 6 (feni_site, 1)),
      composition = [(Element ''Fe'', 1 / 2), (Element ''Ni'', 1 / 2)],
      to_reduced_dict = [(''Fe'', 1 / 2), (''Ni'', 1 / 2)]\<rparr>"

text \<open>
  For \<^verbatim>\<open>fit\<close>: two structures of which only the compositions matter, iron with oxide
  ions and iron with nickel, and an order of these three elements by their Pauling
  electronegativities (times 100), the key of pymatgen's element order.
\<close>

definition fe_o :: struct where
  "fe_o = fe_cubic\<lparr>composition := [(Element ''Fe'', 1), (Specie ''O'' (- 2), 1)]\<rparr>"

definition fe_ni :: struct where
  "fe_ni = fe_cubic\<lparr>composition := [(Element ''Fe'', 1), (Element ''Ni'', 1)]\<rparr>"

definition pauling :: "string \<Rightarrow> nat" where
  "pauling el =
     (if el = ''Fe'' then 183 else if el = ''Ni'' then 191 else if el = ''O'' then 344 else 0)"

section \<open>Properties\<close>

subsection \<open>The histogram\<close>

text \<open>On sorted data an insertion point is a count.\<close>

lemma takeWhile_sorted_less:
  "sorted (sa::real list) \<Longrightarrow> length (takeWhile (\<lambda>x. x < v) sa) = length (filter (\<lambda>x. x < v) sa)"
proof (induction sa)
  case Nil
  then show ?case by simp
next
  case (Cons x sa)
  show ?case
  proof (cases "x < v")
    case True
    with Cons show ?thesis by simp
  next
    case False
    with Cons.prems have "\<forall>y\<in>set sa. \<not> y < v" by auto
    then have "filter (\<lambda>x. x < v) sa = []" by (simp add: filter_empty_conv)
    with False show ?thesis by simp
  qed
qed

lemma takeWhile_sorted_le:
  "sorted (sa::real list) \<Longrightarrow> length (takeWhile (\<lambda>x. x \<le> v) sa) = length (filter (\<lambda>x. x \<le> v) sa)"
proof (induction sa)
  case Nil
  then show ?case by simp
next
  case (Cons x sa)
  show ?case
  proof (cases "x \<le> v")
    case True
    with Cons show ?thesis by simp
  next
    case False
    with Cons.prems have "\<forall>y\<in>set sa. \<not> y \<le> v" by auto
    then have "filter (\<lambda>x. x \<le> v) sa = []" by (simp add: filter_empty_conv)
    with False show ?thesis by simp
  qed
qed

lemma searchsorted_left_sort:
  "searchsorted_left (sort a) v = length (filter (\<lambda>x. x < v) a)"
proof -
  have "length (filter (\<lambda>x. x < v) (sort a)) = length (sort (filter (\<lambda>x. x < v) a))"
    by (simp only: filter_sort)
  then show ?thesis
    by (simp add: searchsorted_left_def takeWhile_sorted_less)
qed

lemma searchsorted_right_sort:
  "searchsorted_right (sort a) v = length (filter (\<lambda>x. x \<le> v) a)"
proof -
  have "length (filter (\<lambda>x. x \<le> v) (sort a)) = length (sort (filter (\<lambda>x. x \<le> v) a))"
    by (simp only: filter_sort)
  then show ?thesis
    by (simp add: searchsorted_right_def takeWhile_sorted_le)
qed

lemma length_search_sorted_inclusive:
  "length (search_sorted_inclusive sa v) = length v"
  by (cases v rule: rev_cases) (simp_all add: search_sorted_inclusive_def)

lemma nth_search_sorted_inclusive:
  assumes "i < length v"
  shows "search_sorted_inclusive sa v ! i =
           (if Suc i < length v then searchsorted_left sa (v ! i) else searchsorted_right sa (v ! i))"
proof (cases v rule: rev_cases)
  case Nil
  with assms show ?thesis by simp
next
  case (snoc ys y)
  with assms show ?thesis
    by (auto simp: search_sorted_inclusive_def nth_append less_Suc_eq)
qed

lemma length_np_diff: "length (np_diff c) = length c - 1"
  by (simp add: np_diff_def)

lemma nth_np_diff:
  "Suc i < length c \<Longrightarrow> np_diff c ! i = c ! Suc i - c ! i"
  by (simp add: np_diff_def nth_tl nth_butlast)

lemma sum_list_np_diff:
  "c \<noteq> [] \<Longrightarrow> sum_list (np_diff c) = last c - hd c"
proof (induction c rule: induct_list012)
  case 1
  then show ?case by simp
next
  case (2 x)
  then show ?case by (simp add: np_diff_def)
next
  case (3 x y zs)
  have "np_diff (x # y # zs) = (y - x) # np_diff (y # zs)"
    by (simp add: np_diff_def)
  with 3 show ?case by simp
qed

lemma bins_decrease_sorted: "\<not> bins_decrease bins \<longleftrightarrow> sorted bins"
proof (induction bins rule: induct_list012)
  case 1
  then show ?case by (simp add: bins_decrease_def)
next
  case (2 x)
  then show ?case by (simp add: bins_decrease_def)
next
  case (3 x y zs)
  have "bins_decrease (x # y # zs) \<longleftrightarrow> y < x \<or> bins_decrease (y # zs)"
    by (simp add: bins_decrease_def)
  moreover have "sorted (x # y # zs) \<longleftrightarrow> x \<le> y \<and> sorted (y # zs)"
    by (rule sorted2)
  ultimately show ?case using "3.IH"(2) by auto
qed

lemma count_between:
  fixes lo hi :: real
  assumes "lo \<le> hi"
  shows "int (length (filter (\<lambda>x. x < hi) a)) - int (length (filter (\<lambda>x. x < lo) a))
           = int (length (filter (\<lambda>x. lo \<le> x \<and> x < hi) a))"
    and "int (length (filter (\<lambda>x. x \<le> hi) a)) - int (length (filter (\<lambda>x. x < lo) a))
           = int (length (filter (\<lambda>x. lo \<le> x \<and> x \<le> hi) a))"
  using assms by (induction a) auto

lemma np_histogram_sorted:
  "sorted bins \<Longrightarrow>
     np_histogram a bins = Inr (np_diff (map int (search_sorted_inclusive (sort a) bins)))"
  by (simp add: np_histogram_def bins_decrease_sorted)

text \<open>
  C1 (as amended). For non-decreasing edges \<^verbatim>\<open>np.histogram\<close> returns one count per bin;
  every bin but the last counts the values of the half-open interval
  \<open>[edges[i], edges[i+1])\<close>, the last bin counts the closed interval
  \<open>[edges[n-1], edges[n]]\<close>, so a value equal to the final edge is counted, and the counts
  add up to the number of values between the first and the last edge, both included.
\<close>

theorem np_histogram_counts:
  assumes "sorted bins"
  shows "\<exists>h. np_histogram a bins = Inr h \<and> length h = length bins - 1 \<and>
           (\<forall>i. Suc i < length h \<longrightarrow>
              h ! i = int (length (filter (\<lambda>x. bins ! i \<le> x \<and> x < bins ! Suc i) a))) \<and>
           (\<forall>i. Suc i = length h \<longrightarrow>
              h ! i = int (length (filter (\<lambda>x. bins ! i \<le> x \<and> x \<le> bins ! Suc i) a))) \<and>
           (2 \<le> length bins \<longrightarrow>
              sum_list h = int (length (filter (\<lambda>x. hd bins \<le> x \<and> x \<le> last bins) a)))"
proof -
  define c where "c = map int (search_sorted_inclusive (sort a) bins)"
  define h where "h = np_diff c"
  have len_c: "length c = length bins"
    by (simp add: c_def length_search_sorted_inclusive)
  have c_nth: "c ! i = (if Suc i < length bins
                        then int (length (filter (\<lambda>x. x < bins ! i) a))
                        else int (length (filter (\<lambda>x. x \<le> bins ! i) a)))"
    if "i < length bins" for i
    using that
    by (simp add: c_def length_search_sorted_inclusive nth_search_sorted_inclusive
        searchsorted_left_sort searchsorted_right_sort)
  have step: "bins ! i \<le> bins ! Suc i" if "Suc i < length bins" for i
    using assms that by (simp add: sorted_iff_nth_Suc)
  have res: "np_histogram a bins = Inr h"
    using assms by (simp add: np_histogram_sorted h_def c_def)
  have len_h: "length h = length bins - 1"
    by (simp add: h_def length_np_diff len_c)
  have inner: "h ! i = int (length (filter (\<lambda>x. bins ! i \<le> x \<and> x < bins ! Suc i) a))"
    if "Suc i < length h" for i
  proof -
    from that len_h have i: "Suc (Suc i) < length bins" by simp
    then have "h ! i = c ! Suc i - c ! i"
      by (simp add: h_def nth_np_diff len_c)
    also have "\<dots> = int (length (filter (\<lambda>x. x < bins ! Suc i) a))
                    - int (length (filter (\<lambda>x. x < bins ! i) a))"
      using i by (simp add: c_nth)
    also have "\<dots> = int (length (filter (\<lambda>x. bins ! i \<le> x \<and> x < bins ! Suc i) a))"
      using i by (intro count_between(1) step) simp
    finally show ?thesis .
  qed
  have final: "h ! i = int (length (filter (\<lambda>x. bins ! i \<le> x \<and> x \<le> bins ! Suc i) a))"
    if "Suc i = length h" for i
  proof -
    from that len_h have i: "Suc (Suc i) = length bins" by simp
    then have "h ! i = c ! Suc i - c ! i"
      by (simp add: h_def nth_np_diff len_c)
    also have "\<dots> = int (length (filter (\<lambda>x. x \<le> bins ! Suc i) a))
                    - int (length (filter (\<lambda>x. x < bins ! i) a))"
      using i by (simp add: c_nth)
    also have "\<dots> = int (length (filter (\<lambda>x. bins ! i \<le> x \<and> x \<le> bins ! Suc i) a))"
      using i by (intro count_between(2) step) simp
    finally show ?thesis .
  qed
  have total: "sum_list h = int (length (filter (\<lambda>x. hd bins \<le> x \<and> x \<le> last bins) a))"
    if "2 \<le> length bins"
  proof -
    from that len_c have ne: "c \<noteq> []" "bins \<noteq> []" by auto
    have "hd c = c ! 0" using ne by (simp add: hd_conv_nth)
    also have "\<dots> = int (length (filter (\<lambda>x. x < bins ! 0) a))"
      using that ne c_nth [of 0] by simp
    finally have hd_c: "hd c = int (length (filter (\<lambda>x. x < hd bins) a))"
      using ne by (simp add: hd_conv_nth)
    have "last c = c ! (length bins - 1)" using ne len_c by (simp add: last_conv_nth)
    also have "\<dots> = int (length (filter (\<lambda>x. x \<le> bins ! (length bins - 1)) a))"
      using that ne c_nth [of "length bins - 1"] by simp
    finally have last_c: "last c = int (length (filter (\<lambda>x. x \<le> last bins) a))"
      using ne by (simp add: last_conv_nth)
    have "hd bins \<le> last bins"
      using assms ne that
      by (metis hd_conv_nth last_conv_nth sorted_iff_nth_mono diff_less le0 length_greater_0_conv zero_less_one)
    then show ?thesis
      using ne by (simp add: h_def sum_list_np_diff hd_c last_c count_between(2))
  qed
  show ?thesis
    using res len_h inner final total by blast
qed

theorem np_histogram_counts_witness:
  "sorted [0, 1 :: real] \<and>
   np_histogram [1 / 2, 1, 2] [0, 1] = Inr [2]"
proof -
  have s: "sorted [0, 1 :: real]" by simp
  from np_histogram_counts [OF s, of "[1 / 2, 1, 2]"]
  obtain h where h: "np_histogram [1 / 2, 1, 2] [0, 1] = Inr h" "length h = 1"
    "\<forall>i. Suc i = length h \<longrightarrow>
       h ! i = int (length (filter (\<lambda>x. [0, 1] ! i \<le> x \<and> x \<le> [0, 1] ! Suc i) [1 / 2, 1, 2 :: real]))"
    by auto
  from h(2,3) have "h ! 0 = 2" by simp
  with h(2) have "h = [2]" by (cases h) auto
  with h(1) s show ?thesis by simp
qed

text \<open>
  C1 as stated fails: the distance 1 with the edges 0 and 1 is counted in the only bin,
  while no distance is strictly below the last edge.
\<close>

theorem np_histogram_last_edge_counterexample:
  "np_histogram [1] [0, 1] = Inr [1] \<and>
   sum_list [1 :: int] \<noteq> int (length (filter (\<lambda>x. x < last [0, 1]) [1 :: real]))"
  by (simp add: np_histogram_def bins_decrease_def search_sorted_inclusive_def
      searchsorted_left_def searchsorted_right_def np_diff_def)

subsection \<open>The bin edges\<close>

lemma np_arange_from_zero:
  "step \<noteq> 0 \<Longrightarrow>
     np_arange fl 0 stop step = Inr (map (\<lambda>i. real i * step) [0 ..< nat \<lceil>fl_div fl stop step\<rceil>])"
  by (simp add: np_arange_def exact_ops_def)

lemma edges_strictly_increasing:
  "0 < step \<Longrightarrow> sorted_wrt (<) (map (\<lambda>i. real i * step) [0 ..< n])"
  by (simp add: sorted_wrt_map sorted_wrt_iff_nth_less)

lemma ceiling_quotient_plus_one:
  fixes c b :: real
  assumes "0 < b"
  shows "\<lceil>(c + b) / b\<rceil> = \<lceil>c / b\<rceil> + 1"
proof -
  have "(c + b) / b = c / b + 1"
    using assms by (simp add: add_divide_distrib)
  then show ?thesis by simp
qed

lemma ceiling_floor_cases:
  fixes x :: real
  shows "\<lceil>x\<rceil> = (if x \<in> \<int> then \<lfloor>x\<rfloor> else \<lfloor>x\<rfloor> + 1)"
  by (auto simp: ceiling_altdef elim: Ints_cases) (metis Ints_of_int of_int_floor_cancel floor_of_int)+

lemma make_bins_pos:
  "0 < bin_size self \<Longrightarrow>
     make_bins fl self =
       Inr (map (\<lambda>i. real i * bin_size self)
              [0 ..< nat \<lceil>fl_div fl (fl_add fl (cutoff self) (bin_size self)) (bin_size self)\<rceil>])"
  by (simp add: make_bins_def np_arange_from_zero)

lemma exact_edge_count:
  fixes c b :: real
  assumes "0 < c" and "0 < b"
  shows "nat \<lceil>(c + b) / b\<rceil> = (if c / b \<in> \<int> then nat \<lfloor>c / b\<rfloor> + 1 else nat \<lfloor>c / b\<rfloor> + 2)"
    and "2 \<le> nat \<lceil>(c + b) / b\<rceil>"
    and "c \<le> real (nat \<lceil>(c + b) / b\<rceil> - 1) * b"
proof -
  define n where "n = nat \<lceil>(c + b) / b\<rceil>"
  have q: "0 < c / b" using assms by simp
  then have fl: "0 \<le> \<lfloor>c / b\<rfloor>" by simp
  have cl: "0 < \<lceil>c / b\<rceil>" using q by simp
  have e: "\<lceil>(c + b) / b\<rceil> = \<lceil>c / b\<rceil> + 1"
    by (rule ceiling_quotient_plus_one [OF assms(2)])
  have "0 \<le> \<lceil>(c + b) / b\<rceil>" unfolding e using cl by linarith
  then have "int n = \<lceil>(c + b) / b\<rceil>" unfolding n_def by (rule nat_0_le)
  then have n_ceil: "int n = \<lceil>c / b\<rceil> + 1" unfolding e .
  show "nat \<lceil>(c + b) / b\<rceil> = (if c / b \<in> \<int> then nat \<lfloor>c / b\<rfloor> + 1 else nat \<lfloor>c / b\<rfloor> + 2)"
  proof (cases "c / b \<in> \<int>")
    case True
    then have "\<lceil>c / b\<rceil> = \<lfloor>c / b\<rfloor>" by (simp only: ceiling_floor_cases if_True)
    with n_ceil fl have "n = nat \<lfloor>c / b\<rfloor> + 1" by linarith
    with True show ?thesis unfolding n_def by (simp only: if_True)
  next
    case False
    then have "\<lceil>c / b\<rceil> = \<lfloor>c / b\<rfloor> + 1" by (simp only: ceiling_floor_cases if_False)
    with n_ceil fl have "n = nat \<lfloor>c / b\<rfloor> + 2" by linarith
    with False show ?thesis unfolding n_def by (simp only: if_False)
  qed
  have n2: "2 \<le> n" using n_ceil cl by linarith
  then show "2 \<le> nat \<lceil>(c + b) / b\<rceil>" unfolding n_def .
  have "int (n - 1) = \<lceil>c / b\<rceil>" using n_ceil n2 by linarith
  then have "real (n - 1) = of_int \<lceil>c / b\<rceil>" by (metis of_int_of_nat_eq)
  moreover have "c / b \<le> of_int \<lceil>c / b\<rceil>" by (rule le_of_int_ceiling)
  then have "c \<le> of_int \<lceil>c / b\<rceil> * b"
    using assms(2) by (simp only: pos_divide_le_eq)
  ultimately show "c \<le> real (nat \<lceil>(c + b) / b\<rceil> - 1) * b"
    unfolding n_def by simp
qed

text \<open>
  C2 (as amended). For \<open>cutoff > 0\<close> and \<open>bin_size > 0\<close> the edge construction returns
  exactly \<open>ceil(q)\<close> values, \<open>q\<close> being the float quotient of the float sum
  \<open>cutoff + bin_size\<close> by \<open>bin_size\<close>; they are strictly increasing and the first one, if
  there is any, is 0. Where neither the sum nor the quotient rounds, these are
  \<open>floor(cutoff / bin_size) + 2\<close> values when the cutoff is no multiple of the bin size and
  \<open>floor(cutoff / bin_size) + 1\<close> values when it is, starting at 0 and reaching the cutoff.
\<close>

theorem make_bins_edges:
  assumes "0 < cutoff self" and "0 < bin_size self"
  shows "\<exists>edges. make_bins fl self = Inr edges \<and>
           length edges
             = nat \<lceil>fl_div fl (fl_add fl (cutoff self) (bin_size self)) (bin_size self)\<rceil> \<and>
           sorted_wrt (<) edges \<and> (edges \<noteq> [] \<longrightarrow> hd edges = 0) \<and>
           (fl_add fl (cutoff self) (bin_size self) = cutoff self + bin_size self \<and>
            fl_div fl (cutoff self + bin_size self) (bin_size self)
              = (cutoff self + bin_size self) / bin_size self \<longrightarrow>
              length edges = (if cutoff self / bin_size self \<in> \<int>
                              then nat \<lfloor>cutoff self / bin_size self\<rfloor> + 1
                              else nat \<lfloor>cutoff self / bin_size self\<rfloor> + 2) \<and>
              hd edges = 0 \<and> cutoff self \<le> last edges)"
proof -
  define c where "c = cutoff self"
  define b where "b = bin_size self"
  define n where "n = nat \<lceil>fl_div fl (fl_add fl c b) b\<rceil>"
  define edges where "edges = map (\<lambda>i. real i * b) [0 ..< n]"
  have pos: "0 < c" "0 < b" using assms by (simp_all add: c_def b_def)
  have res: "make_bins fl self = Inr edges"
    using assms(2) by (simp add: make_bins_pos edges_def n_def c_def b_def)
  have len: "length edges = n" by (simp add: edges_def)
  have inc: "sorted_wrt (<) edges"
    using pos by (simp add: edges_def edges_strictly_increasing)
  have nth: "edges ! i = real i * b" if "i < n" for i
    using that by (simp add: edges_def)
  have hd0: "hd edges = 0" if "edges \<noteq> []"
  proof -
    from that len have "0 < n" by (cases n) auto
    with nth [of 0] that show ?thesis by (simp add: hd_conv_nth)
  qed
  have exact: "length edges = (if c / b \<in> \<int> then nat \<lfloor>c / b\<rfloor> + 1 else nat \<lfloor>c / b\<rfloor> + 2) \<and>
                 hd edges = 0 \<and> c \<le> last edges"
    if "fl_add fl c b = c + b \<and> fl_div fl (c + b) b = (c + b) / b"
  proof -
    from that have n: "n = nat \<lceil>(c + b) / b\<rceil>" by (simp add: n_def)
    have n2: "2 \<le> n" unfolding n by (rule exact_edge_count(2) [OF pos])
    then have ne: "edges \<noteq> []" using len by auto
    have "last edges = edges ! (n - 1)" using ne len by (simp add: last_conv_nth)
    also have "\<dots> = real (n - 1) * b" using n2 by (intro nth) simp
    finally have "c \<le> last edges"
      using exact_edge_count(3) [OF pos] by (simp add: n)
    with exact_edge_count(1) [OF pos] hd0 [OF ne] show ?thesis
      by (simp add: len n)
  qed
  have "make_bins fl self = Inr edges \<and> length edges = n \<and> sorted_wrt (<) edges \<and>
          (edges \<noteq> [] \<longrightarrow> hd edges = 0) \<and>
          (fl_add fl c b = c + b \<and> fl_div fl (c + b) b = (c + b) / b \<longrightarrow>
             length edges = (if c / b \<in> \<int> then nat \<lfloor>c / b\<rfloor> + 1 else nat \<lfloor>c / b\<rfloor> + 2) \<and>
             hd edges = 0 \<and> c \<le> last edges)"
    using res len inc hd0 exact by blast
  then show ?thesis
    unfolding n_def c_def b_def by (rule exI [of _ edges])
qed

theorem make_bins_edges_witness:
  "0 < cutoff (rdf_init 2 (1 / 2)) \<and> 0 < bin_size (rdf_init 2 (1 / 2)) \<and>
   make_bins exact_ops (rdf_init 2 (1 / 2)) = Inr [0, 1 / 2, 1, 3 / 2, 2] \<and>
   length [0, 1 / 2, 1, 3 / 2, 2 :: real]
     = nat \<lfloor>cutoff (rdf_init 2 (1 / 2)) / bin_size (rdf_init 2 (1 / 2))\<rfloor> + 1"
proof -
  have h: "0 < cutoff (rdf_init 2 (1 / 2))" "0 < bin_size (rdf_init 2 (1 / 2))"
    by (simp_all add: rdf_init_def)
  have x: "fl_add exact_ops (cutoff (rdf_init 2 (1 / 2))) (bin_size (rdf_init 2 (1 / 2)))
             = cutoff (rdf_init 2 (1 / 2)) + bin_size (rdf_init 2 (1 / 2)) \<and>
           fl_div exact_ops (cutoff (rdf_init 2 (1 / 2)) + bin_size (rdf_init 2 (1 / 2)))
               (bin_size (rdf_init 2 (1 / 2)))
             = (cutoff (rdf_init 2 (1 / 2)) + bin_size (rdf_init 2 (1 / 2)))
                / bin_size (rdf_init 2 (1 / 2))"
    by (simp add: exact_ops_def)
  have m: "cutoff (rdf_init 2 (1 / 2)) / bin_size (rdf_init 2 (1 / 2)) \<in> \<int>"
    by (simp add: rdf_init_def)
  have e: "make_bins exact_ops (rdf_init 2 (1 / 2)) = Inr [0, 1 / 2, 1, 3 / 2, 2]"
    by (simp add: make_bins_def rdf_init_def np_arange_def exact_ops_def upt_conv_Cons)
  from make_bins_edges [OF h, of exact_ops] x obtain edges where
    1: "make_bins exact_ops (rdf_init 2 (1 / 2)) = Inr edges" and
    2: "length edges = (if cutoff (rdf_init 2 (1 / 2)) / bin_size (rdf_init 2 (1 / 2)) \<in> \<int>
                        then nat \<lfloor>cutoff (rdf_init 2 (1 / 2)) / bin_size (rdf_init 2 (1 / 2))\<rfloor> + 1
                        else nat \<lfloor>cutoff (rdf_init 2 (1 / 2)) / bin_size (rdf_init 2 (1 / 2))\<rfloor> + 2)"
    by blast
  from 1 e have "edges = [0, 1 / 2, 1, 3 / 2, 2]" by simp
  with 2 m have "length [0, 1 / 2, 1, 3 / 2, 2 :: real]
     = nat \<lfloor>cutoff (rdf_init 2 (1 / 2)) / bin_size (rdf_init 2 (1 / 2))\<rfloor> + 1"
    by (simp only: if_True)
  with h e show ?thesis by blast
qed

text \<open>
  C2 as stated fails where the cutoff is a multiple of the bin size: cutoff 2 with bin
  size 1/2, for which the float sum 5/2 and the float quotient 5 are exact, gives the
  five edges 0, 1/2, 1, 3/2, 2, while \<open>floor(cutoff / bin_size) + 2\<close> is 6.
\<close>

theorem make_bins_count_counterexample:
  "make_bins exact_ops (rdf_init 2 (1 / 2)) = Inr [0, 1 / 2, 1, 3 / 2, 2] \<and>
   nat (\<lfloor>cutoff (rdf_init 2 (1 / 2)) / bin_size (rdf_init 2 (1 / 2))\<rfloor> + 2) = 6"
  by (simp add: make_bins_def rdf_init_def np_arange_def exact_ops_def upt_conv_Cons)

subsection \<open>Normalisation\<close>

lemma length_np_histogram:
  "np_histogram a bins = Inr h \<Longrightarrow> length h = length bins - 1"
  by (auto simp: np_histogram_def length_np_diff length_search_sorted_inclusive split: if_splits)

lemma length_shell_volume: "length (shell_volume bins) = length bins - 1"
  by (simp add: shell_volume_def)

lemma nth_shell_volume:
  "Suc i < length bins \<Longrightarrow>
     shell_volume bins ! i = 4 / 3 * pi * (bins ! Suc i ^ 3 - bins ! i ^ 3)"
  by (simp add: shell_volume_def nth_tl nth_butlast)

lemma shell_volume_edges_pos:
  assumes "0 < b" and "Suc i < n"
  shows "0 < shell_volume (map (\<lambda>i. real i * b) [0 ..< n]) ! i"
proof -
  have "real i * b < real (Suc i) * b" using assms(1) by simp
  moreover have "0 \<le> real i * b" using assms(1) by simp
  ultimately have "(real i * b) ^ 3 < (real (Suc i) * b) ^ 3"
    by (intro power_strict_mono) simp_all
  then have "0 < 4 / 3 * pi * ((real (Suc i) * b) ^ 3 - (real i * b) ^ 3)"
    by simp
  then show ?thesis
    using assms(2) by (simp add: nth_shell_volume)
qed

lemma length_normalize:
  "length (normalize_counts dist_hist shell_vol x) = min (length dist_hist) (length shell_vol)"
  by (simp add: normalize_counts_def)

lemma nth_normalize:
  "i < length dist_hist \<Longrightarrow> i < length shell_vol \<Longrightarrow>
     normalize_counts dist_hist shell_vol x ! i =
       np_div (np_div (Some (real_of_int (dist_hist ! i))) (Some (shell_vol ! i))) x"
  by (simp add: normalize_counts_def)

lemma np_div_finite:
  "v \<noteq> 0 \<Longrightarrow> x \<noteq> 0 \<Longrightarrow> np_div (np_div (Some h) (Some v)) (Some x) = Some (h / v / x)"
  by (simp add: np_div_def)

subsection \<open>The RDF engine\<close>

lemma rdf_featurize_ordered:
  assumes "is_ordered s" and "get_all_neighbors s (cutoff self) \<noteq> []"
    and "make_bins fl self = Inr edges"
    and "np_histogram (concat (map (map snd) (get_all_neighbors s (cutoff self)))) edges = Inr hist"
  shows "rdf_featurize fl self s =
           Inr [\<lparr>distances = butlast edges,
                 distribution = normalize_counts hist (shell_volume edges)
                   (np_div (Some (real (num_sites s))) (Some (volume s)))\<rparr>]"
  using assms by (simp add: rdf_featurize_def np_concatenate_def)

text \<open>
  C3. For an ordered structure with at least one site (and a positive bin size and cell
  volume) the RDF engine returns, for every bin, the raw count divided by the shell
  volume \<open>4/3 * pi * (edges[i+1]^3 - edges[i]^3)\<close> and by the number density
  \<open>num_sites / volume\<close>, and nothing else; a bin with count 0 has the value 0.
\<close>

theorem rdf_featurize_values:
  assumes "is_ordered s" and "sites s \<noteq> []" and "get_all_neighbors s (cutoff self) \<noteq> []"
    and "0 < bin_size self" and "0 < volume s"
  shows "\<exists>edges hist rdf.
           make_bins fl self = Inr edges \<and>
           np_histogram (concat (map (map snd) (get_all_neighbors s (cutoff self)))) edges
             = Inr hist \<and>
           rdf_featurize fl self s = Inr [\<lparr>distances = butlast edges, distribution = rdf\<rparr>] \<and>
           length hist = length edges - 1 \<and> length rdf = length edges - 1 \<and>
           (\<forall>i. i < length rdf \<longrightarrow>
              rdf ! i = Some (real_of_int (hist ! i)
                              / (4 / 3 * pi * (edges ! Suc i ^ 3 - edges ! i ^ 3))
                              / (real (num_sites s) / volume s)) \<and>
              (hist ! i = 0 \<longrightarrow> rdf ! i = Some 0))"
proof -
  define b where "b = bin_size self"
  define n where "n = nat \<lceil>fl_div fl (fl_add fl (cutoff self) b) b\<rceil>"
  define edges where "edges = map (\<lambda>i. real i * b) [0 ..< n]"
  define a where "a = concat (map (map snd) (get_all_neighbors s (cutoff self)))"
  define hist where "hist = np_diff (map int (search_sorted_inclusive (sort a) edges))"
  define nd where "nd = real (num_sites s) / volume s"
  define rdf where "rdf = normalize_counts hist (shell_volume edges) (Some nd)"
  have b: "0 < b" using assms(4) by (simp add: b_def)
  have edges: "make_bins fl self = Inr edges"
    using assms(4) by (simp add: make_bins_pos edges_def n_def b_def)
  have len_e: "length edges = n" by (simp add: edges_def)
  have "sorted_wrt (<) edges"
    using b by (simp add: edges_def edges_strictly_increasing)
  then have "sorted edges" by (simp add: strict_sorted_iff)
  then have hist: "np_histogram a edges = Inr hist"
    by (simp add: np_histogram_sorted hist_def)
  have len_h: "length hist = length edges - 1"
    using hist by (rule length_np_histogram)
  have nd_pos: "0 < nd"
    using assms(2,5) by (simp add: nd_def num_sites_def)
  then have density: "np_div (Some (real (num_sites s))) (Some (volume s)) = Some nd"
    using assms(5) by (simp add: np_div_def nd_def)
  have res: "rdf_featurize fl self s = Inr [\<lparr>distances = butlast edges, distribution = rdf\<rparr>]"
    using rdf_featurize_ordered [OF assms(1,3) edges] hist
    by (simp add: a_def rdf_def density)
  have len_r: "length rdf = length edges - 1"
    by (simp add: rdf_def length_normalize len_h length_shell_volume)
  have val: "rdf ! i = Some (real_of_int (hist ! i)
                              / (4 / 3 * pi * (edges ! Suc i ^ 3 - edges ! i ^ 3)) / nd)"
    if "i < length rdf" for i
  proof -
    from that len_r len_e have i: "Suc i < n" by simp
    then have "0 < shell_volume edges ! i"
      using b unfolding edges_def by (rule shell_volume_edges_pos [rotated])
    then have fin: "np_div (np_div (Some (real_of_int (hist ! i))) (Some (shell_volume edges ! i))) (Some nd)
                 = Some (real_of_int (hist ! i) / shell_volume edges ! i / nd)"
      using nd_pos by (intro np_div_finite) simp_all
    have sv: "shell_volume edges ! i = 4 / 3 * pi * (edges ! Suc i ^ 3 - edges ! i ^ 3)"
      using i len_e by (simp only: nth_shell_volume)
    have "rdf ! i = np_div (np_div (Some (real_of_int (hist ! i))) (Some (shell_volume edges ! i))) (Some nd)"
      using i len_e len_h by (simp add: rdf_def nth_normalize length_shell_volume)
    also note fin
    also have "Some (real_of_int (hist ! i) / shell_volume edges ! i / nd)
                 = Some (real_of_int (hist ! i)
                         / (4 / 3 * pi * (edges ! Suc i ^ 3 - edges ! i ^ 3)) / nd)"
      by (simp only: sv)
    finally show ?thesis .
  qed
  have zero: "rdf ! i = Some 0" if "i < length rdf" "hist ! i = 0" for i
    using val [OF that(1)] that(2) by simp
  show ?thesis
    using edges hist res len_h len_r val zero
    unfolding a_def nd_def by blast
qed

lemma fe_cubic_ordered: "is_ordered fe_cubic"
  by (simp add: is_ordered_def fe_cubic_def fe_site_def site_is_ordered_def)


theorem rdf_featurize_values_witness:
  "is_ordered fe_cubic \<and> sites fe_cubic \<noteq> [] \<and>
   get_all_neighbors fe_cubic (cutoff (rdf_init 1 1)) \<noteq> [] \<and>
   0 < bin_size (rdf_init 1 1) \<and> 0 < volume fe_cubic \<and>
   rdf_featurize exact_ops (rdf_init 1 1) fe_cubic =
     Inr [\<lparr>distances = [0], distribution = [Some (6 / (4 / 3 * pi) / 1)]\<rparr>]"
proof -
  have h: "is_ordered fe_cubic" "sites fe_cubic \<noteq> []"
    "get_all_neighbors fe_cubic (cutoff (rdf_init 1 1)) \<noteq> []"
    "0 < bin_size (rdf_init 1 1)" "0 < volume fe_cubic"
    by (simp_all add: fe_cubic_ordered) (simp_all add: fe_cubic_def rdf_init_def)
  have e: "make_bins exact_ops (rdf_init 1 1) = Inr [0, 1]"
    by (simp add: make_bins_def rdf_init_def np_arange_def exact_ops_def upt_conv_Cons)
  have a: "concat (map (map snd) (get_all_neighbors fe_cubic (cutoff (rdf_init 1 1))))
             = [1, 1, 1, 1, 1, 1]"
    by (simp add: fe_cubic_def rdf_init_def numeral_eq_Suc)
  have c: "np_histogram [1, 1, 1, 1, 1, 1] [0, 1] = Inr [6]"
    by (simp add: np_histogram_def bins_decrease_def search_sorted_inclusive_def
        searchsorted_left_def searchsorted_right_def np_diff_def)
  from rdf_featurize_values [OF h]
  obtain edges hist rdf where
    1: "make_bins exact_ops (rdf_init 1 1) = Inr edges" and
    2: "np_histogram (concat (map (map snd) (get_all_neighbors fe_cubic (cutoff (rdf_init 1 1)))))
          edges = Inr hist" and
    3: "rdf_featurize exact_ops (rdf_init 1 1) fe_cubic
          = Inr [\<lparr>distances = butlast edges, distribution = rdf\<rparr>]" and
    4: "length rdf = length edges - 1" and
    5: "\<forall>i. i < length rdf \<longrightarrow>
          rdf ! i = Some (real_of_int (hist ! i)
                          / (4 / 3 * pi * (edges ! Suc i ^ 3 - edges ! i ^ 3))
                          / (real (num_sites fe_cubic) / volume fe_cubic)) \<and>
          (hist ! i = 0 \<longrightarrow> rdf ! i = Some 0)"
    by blast
  from 1 e have edges: "edges = [0, 1]" by simp
  from 2 a c edges have hist: "hist = [6]" by simp
  from 3 4 5 edges hist have r: "rdf_featurize exact_ops (rdf_init 1 1) fe_cubic
        = Inr [\<lparr>distances = [0], distribution = rdf\<rparr>]" "length rdf = 1"
      "\<forall>i. i < length rdf \<longrightarrow>
         rdf ! i = Some (real_of_int ([6] ! i) / (4 / 3 * pi * ([0, 1] ! Suc i ^ 3 - [0, 1] ! i ^ 3))
                      / (real (num_sites fe_cubic) / volume fe_cubic))"
    by simp_all
  from r(2,3) have "rdf ! 0 = Some (6 / (4 / 3 * pi) / 1)"
    by (simp add: num_sites_def fe_cubic_def)
  with r(2) have "rdf = [Some (6 / (4 / 3 * pi) / 1)]"
    by (cases rdf) auto
  with r(1) h show ?thesis by simp
qed

subsection \<open>Error conditions\<close>

lemma rdf_featurize_disordered:
  "\<not> is_ordered s \<Longrightarrow> rdf_featurize fl self s = Inl UnsupportedStructure"
  by (simp add: rdf_featurize_def)

lemma prdf_featurize_disordered:
  "\<not> is_ordered s \<Longrightarrow> prdf_featurize fl self s = Inl UnsupportedStructure"
  by (simp add: prdf_featurize_def)

lemma feni_alloy_disordered: "\<not> is_ordered feni_alloy"
  by (simp add: is_ordered_def feni_alloy_def feni_site_def site_is_ordered_def)

lemma oxi_state_supported: "oxi_state st \<noteq> Inl UnsupportedStructure"
  by (simp add: oxi_state_def site_specie_def split: sum.splits list.splits specie.splits)

lemma np_index_supported: "np_index n i \<noteq> Inl UnsupportedStructure"
  by (simp add: np_index_def Let_def)

lemma redf_neighbors_supported:
  "redf_neighbors fl w n q distr nbrs \<noteq> Inl UnsupportedStructure"
proof (induction nbrs arbitrary: distr)
  case Nil
  then show ?case by simp
next
  case (Cons p nbrs)
  obtain nn d where p: "p = (nn, d)" by (cases p)
  show ?case
    using Cons.IH oxi_state_supported [of nn] np_index_supported [of "length distr" "py_int (fl_div fl d w)"]
    by (auto simp: p split: sum.splits)
qed

lemma redf_sites_supported:
  "redf_sites fl w c strc distr sts \<noteq> Inl UnsupportedStructure"
proof (induction sts arbitrary: distr)
  case Nil
  then show ?case by simp
next
  case (Cons st sts)
  show ?case
    using Cons.IH oxi_state_supported [of st] redf_neighbors_supported
    by (auto split: sum.splits)
qed

text \<open>
  The ReDF engine never reports the unsupported-structure condition, whatever the
  structure and the collaborators: it has no test of \<^verbatim>\<open>is_ordered\<close>.
\<close>

lemma redf_featurize_never_unsupported:
  "snd (redf_featurize fl find_primitive add_oxidation_states self s) \<noteq> Inl UnsupportedStructure"
  using redf_sites_supported
  by (auto simp: redf_featurize_def Let_def split: sum.splits)

text \<open>
  C7. The RDF and PRDF engines refuse the disordered structure \<open>feni_alloy\<close> with the
  unsupported-structure condition before any other work. The ReDF engine has no such
  test: on the same structure (no primitive cell found, oxidation states left as they
  are) it runs into the \<^verbatim>\<open>AttributeError\<close> of \<^verbatim>\<open>site.specie\<close> inside its site loop.
\<close>

theorem disordered_structure_outcomes:
  "rdf_featurize exact_ops (rdf_init 1 (1 / 2)) feni_alloy = Inl UnsupportedStructure \<and>
   prdf_featurize exact_ops (prdf_init 1 (1 / 2) [] []) feni_alloy = Inl UnsupportedStructure \<and>
   snd (redf_featurize exact_ops (\<lambda>s. None) (\<lambda>s. s) (redf_init (Some 1) (1 / 2)) feni_alloy)
     = Inl AttributeError"
proof -
  have "snd (redf_featurize exact_ops (\<lambda>s. None) (\<lambda>s. s) (redf_init (Some 1) (1 / 2)) feni_alloy)
          = Inl AttributeError"
    by (simp add: redf_featurize_def exact_ops_def redf_init_def redf_struct_def
        redf_resolved_cutoff_def feni_alloy_def feni_site_def py_int_def oxi_state_def site_specie_def site_is_ordered_def)
  then show ?thesis
    by (simp add: rdf_featurize_disordered prdf_featurize_disordered feni_alloy_disordered)
qed

text \<open>
  C8 (as amended). On an engine that has not been fitted \<^verbatim>\<open>feature_labels\<close> fails with
  the not-fitted condition, and \<^verbatim>\<open>featurize\<close> never returns a vector: it fails with
  the not-fitted condition on an ordered structure, and with the unsupported-structure
  condition, tested first, on a disordered one.
\<close>

theorem prdf_not_fitted:
  assumes "elements' self = None"
  shows "prdf_featurize fl self s
           = (if is_ordered s then Inl NotFitted else Inl UnsupportedStructure) \<and>
         prdf_feature_labels fl fmt self = Inl NotFitted"
  using assms by (simp add: prdf_featurize_def prdf_feature_labels_def)

theorem prdf_not_fitted_witness:
  "elements' (prdf_init 2 1 [] []) = None \<and>
   prdf_featurize exact_ops (prdf_init 2 1 [] []) nacl_chain = Inl NotFitted \<and>
   prdf_feature_labels exact_ops (\<lambda>e1 e2 r1 r2. e1 @ e2) (prdf_init 2 1 [] []) = Inl NotFitted"
proof -
  have h: "elements' (prdf_init 2 1 [] []) = None" by (simp add: prdf_init_def)
  have o: "is_ordered nacl_chain"
    by (simp add: is_ordered_def nacl_chain_def na_site_def cl_site_def site_is_ordered_def)
  from prdf_not_fitted [OF h, of exact_ops nacl_chain "\<lambda>e1 e2 r1 r2. e1 @ e2"] h o
  show ?thesis by simp
qed

text \<open>
  C8 as stated fails on a disordered structure: the engine is not fitted, and
  \<^verbatim>\<open>featurize\<close> fails with the unsupported-structure condition.
\<close>

theorem prdf_not_fitted_counterexample:
  "elements' (prdf_init 1 (1 / 2) [] []) = None \<and>
   prdf_featurize exact_ops (prdf_init 1 (1 / 2) [] []) feni_alloy = Inl UnsupportedStructure \<and>
   prdf_featurize exact_ops (prdf_init 1 (1 / 2) [] []) feni_alloy \<noteq> Inl NotFitted"
  by (simp add: prdf_featurize_disordered feni_alloy_disordered prdf_init_def)

text \<open>
  C9 (as amended). Construction of a ReDF engine raises nothing and keeps the bin width
  it is given; every \<^verbatim>\<open>featurize\<close> call on an engine whose \<open>dr\<close> is not positive fails
  with the invalid-configuration condition, before anything else, and leaves the engine
  as it was.
\<close>

theorem redf_invalid_configuration:
  assumes "dr self \<le> 0"
  shows "redf_featurize fl find_primitive add_oxidation_states self s
           = (self, Inl InvalidConfiguration) \<and>
         dr (redf_init c w) = w \<and> redf_cutoff (redf_init c w) = c"
  using assms by (simp add: redf_featurize_def redf_init_def)

theorem redf_invalid_configuration_witness:
  "dr (redf_init None 0) \<le> 0 \<and>
   redf_featurize exact_ops (\<lambda>s. None) (\<lambda>s. s) (redf_init None 0) nacl_chain
     = (redf_init None 0, Inl InvalidConfiguration)"
proof -
  have h: "dr (redf_init None 0) \<le> 0" by (simp add: redf_init_def)
  from redf_invalid_configuration [OF h, of exact_ops "\<lambda>s. None" "\<lambda>s. s" nacl_chain] h
  show ?thesis by simp
qed

text \<open>
  C9 as stated fails twice. An RDF engine with the bin size -1 is constructed and used
  without any error: for the cutoff 1/2 the only edge is 0, there is no bin, and the
  result is empty. A ReDF engine with \<open>dr = 0\<close> is constructed without any error.
\<close>

theorem invalid_configuration_counterexample:
  "bin_size (rdf_init (1 / 2) (- 1)) \<le> 0 \<and>
   rdf_featurize exact_ops (rdf_init (1 / 2) (- 1)) fe_cubic = Inr [\<lparr>distances = [], distribution = []\<rparr>] \<and>
   redf_init None 0 = \<lparr>redf_cutoff = None, dr = 0\<rparr>"
proof -
  have "\<lceil>1 / 2 :: real\<rceil> = 1" by (simp add: ceiling_eq_iff)
  then have e: "make_bins exact_ops (rdf_init (1 / 2) (- 1)) = Inr [0]"
    by (simp add: make_bins_def np_arange_def exact_ops_def rdf_init_def)
  have o: "is_ordered fe_cubic"
    by (simp add: is_ordered_def fe_cubic_def fe_site_def site_is_ordered_def)
  have a: "get_all_neighbors fe_cubic (cutoff (rdf_init (1 / 2) (- 1))) = [[]]"
    by (simp add: fe_cubic_def rdf_init_def)
  have "rdf_featurize exact_ops (rdf_init (1 / 2) (- 1)) fe_cubic
          = Inr [\<lparr>distances = [], distribution = []\<rparr>]"
    by (simp add: rdf_featurize_def o e a np_concatenate_def np_histogram_def bins_decrease_def
        search_sorted_inclusive_def np_diff_def shell_volume_def normalize_counts_def)
  then show ?thesis
    by (simp add: rdf_init_def redf_init_def)
qed

subsection \<open>The PRDF engine\<close>

lemma length_combinations_with_replacement:
  "length (combinations_with_replacement xs) = Suc (length xs) choose 2"
proof (induction xs)
  case Nil
  then show ?case by simp
next
  case (Cons x xs)
  have "Suc (Suc (length xs)) choose 2 = Suc (length xs) + (Suc (length xs) choose 2)"
    by (simp add: numeral_2_eq_2)
  with Cons show ?case by simp
qed

lemma set_combinations_with_replacement:
  "set (combinations_with_replacement xs) \<subseteq> set xs \<times> set xs"
  by (induction xs) auto

lemma reverse_pair_not_listed:
  "distinct xs \<Longrightarrow> (a, b) \<in> set (combinations_with_replacement xs) \<Longrightarrow> a \<noteq> b \<Longrightarrow>
     (b, a) \<notin> set (combinations_with_replacement xs)"
proof (induction xs)
  case Nil
  then show ?case by simp
next
  case (Cons x xs)
  then show ?case
    using set_combinations_with_replacement [of xs] by auto
qed

lemma concat_blocks_length:
  "(\<And>b. b \<in> set bs \<Longrightarrow> length b = n) \<Longrightarrow> length (concat bs) = length bs * n"
  by (induction bs) simp_all

lemma concat_blocks_nth:
  "(\<And>b. b \<in> set bs \<Longrightarrow> length b = n) \<Longrightarrow> p < length bs \<Longrightarrow>
     take n (drop (p * n) (concat bs)) = bs ! p"
proof (induction bs arbitrary: p)
  case Nil
  then show ?case by simp
next
  case (Cons b bs)
  show ?case
  proof (cases p)
    case 0
    with Cons.prems show ?thesis by simp
  next
    case (Suc q)
    have "drop (Suc q * n) (b @ concat bs) = drop (q * n) (concat bs)"
      using Cons.prems(1) [of b] by simp
    with Suc Cons show ?thesis by simp
  qed
qed

lemma empty_buckets:
  "fold (\<lambda>p dbt. dbt(p \<mapsto> [])) keys m key = (if key \<in> set keys then Some [] else m key)"
  by (induction keys arbitrary: m) auto

lemma append_neighbors_bucket:
  "append_neighbors my_elem dbt nlst = Inr dbt' \<Longrightarrow>
     dbt' key = map_option (\<lambda>ds. ds @ (if fst key = my_elem
                    then map snd (filter (\<lambda>(nsite, rij). get_symbol nsite = Inr (snd key)) nlst)
                    else [])) (dbt key)"
proof (induction nlst arbitrary: dbt)
  case Nil
  then show ?case by (cases "dbt key") simp_all
next
  case (Cons p nlst)
  obtain nsite rij where p: "p = (nsite, rij)" by (cases p)
  from Cons.prems obtain n_elem ds where
    n: "get_symbol nsite = Inr n_elem" and d: "dbt (my_elem, n_elem) = Some ds" and
    r: "append_neighbors my_elem (dbt((my_elem, n_elem) \<mapsto> ds @ [rij])) nlst = Inr dbt'"
    by (auto simp: p split: sum.splits option.splits)
  show ?case
    using Cons.IH [OF r] n d by (cases key) (auto simp: p)
qed

lemma sort_neighbors_bucket:
  "sort_neighbors dbt zs = Inr dbt' \<Longrightarrow>
     dbt' key = map_option (\<lambda>ds. ds @ bucket key zs) (dbt key)"
proof (induction zs arbitrary: dbt)
  case Nil
  then show ?case by (cases "dbt key") (simp_all add: bucket_def)
next
  case (Cons z zs)
  obtain st nlst where z: "z = (st, nlst)" by (cases z)
  from Cons.prems obtain my_elem dbt1 where
    m: "get_symbol st = Inr my_elem" and
    a: "append_neighbors my_elem dbt nlst = Inr dbt1" and
    r: "sort_neighbors dbt1 zs = Inr dbt'"
    by (auto simp: z split: sum.splits)
  have "bucket key (z # zs) =
          (if fst key = my_elem
           then map snd (filter (\<lambda>(nsite, rij). get_symbol nsite = Inr (snd key)) nlst)
           else []) @ bucket key zs"
    using m by (auto simp: bucket_def z)
  then show ?case
    using Cons.IH [OF r] append_neighbors_bucket [OF a, of key]
    by (cases "dbt key") simp_all
qed

lemma normalize_prdfs_other:
  "normalize_prdfs reduced n bins shell dbt prdf keys = Inr prdf' \<Longrightarrow> key \<notin> set keys \<Longrightarrow>
     prdf' key = prdf key"
proof (induction keys arbitrary: prdf)
  case Nil
  then show ?case by simp
next
  case (Cons k keys)
  from Cons.prems(1) obtain rdf where
    "normalize_prdfs reduced n bins shell dbt (prdf(k \<mapsto> rdf)) keys = Inr prdf'"
    by (auto simp: Let_def split: sum.splits option.splits)
  from Cons.IH [OF this] Cons.prems(2) show ?case by simp
qed

lemma normalize_prdfs_key:
  "normalize_prdfs reduced n bins shell dbt prdf keys = Inr prdf' \<Longrightarrow> key \<in> set keys \<Longrightarrow>
     \<exists>dists hist amount.
        dbt key = Some dists \<and> np_histogram dists bins = Inr hist \<and>
        map_of reduced (fst key) = Some amount \<and>
        prdf' key = Some (normalize_counts hist shell (Some (amount * real n)))"
proof (induction keys arbitrary: prdf)
  case Nil
  then show ?case by simp
next
  case (Cons k keys)
  from Cons.prems(1) obtain dists hist amount where
    k: "dbt k = Some dists" "np_histogram dists bins = Inr hist"
       "map_of reduced (fst k) = Some amount" and
    r: "normalize_prdfs reduced n bins shell dbt
          (prdf(k \<mapsto> normalize_counts hist shell (Some (amount * real n)))) keys = Inr prdf'"
    by (auto simp: Let_def split: sum.splits option.splits)
  show ?case
  proof (cases "key \<in> set keys")
    case True
    from Cons.IH [OF r True] show ?thesis .
  next
    case False
    with Cons.prems(2) have "key = k" by simp
    with False normalize_prdfs_other [OF r, of key] k show ?thesis by simp
  qed
qed

lemma compute_prdf_result:
  assumes "compute_prdf fl self s = Inr (db, prdf)"
  shows "\<exists>edges. make_bins fl self = Inr edges \<and> db = butlast edges \<and>
           (\<forall>key. (fst key \<notin> fst ` set (to_reduced_dict s) \<or>
                   snd key \<notin> fst ` set (to_reduced_dict s)) \<longrightarrow> prdf key = None) \<and>
           (\<forall>key. fst key \<in> fst ` set (to_reduced_dict s) \<and>
                  snd key \<in> fst ` set (to_reduced_dict s) \<longrightarrow>
              (\<exists>hist amount.
                 np_histogram (bucket key (zip (sites s) (get_all_neighbors s (cutoff self))))
                    edges = Inr hist \<and>
                 map_of (to_reduced_dict s) (fst key) = Some amount \<and>
                 prdf key = Some (normalize_counts hist (shell_volume edges)
                                    (Some (amount * real (num_sites s))))))"
proof -
  define keys where
    "keys = List.product (map fst (to_reduced_dict s)) (map fst (to_reduced_dict s))"
  define zs where "zs = zip (sites s) (get_all_neighbors s (cutoff self))"
  define dbt0 where "dbt0 = fold (\<lambda>p dbt. dbt(p \<mapsto> [])) keys (Map.empty :: distances_by_type)"
  have in_keys: "key \<in> set keys \<longleftrightarrow>
      fst key \<in> fst ` set (to_reduced_dict s) \<and> snd key \<in> fst ` set (to_reduced_dict s)" for key
    by (cases key) (auto simp: keys_def)
  from assms obtain dbt edges where
    sn: "sort_neighbors dbt0 zs = Inr dbt" and
    mb: "make_bins fl self = Inr edges" and
    np: "normalize_prdfs (to_reduced_dict s) (num_sites s) edges (shell_volume edges) dbt
           Map.empty keys = Inr prdf" and
    db: "db = butlast edges"
    by (auto simp: compute_prdf_def Let_def keys_def zs_def dbt0_def split: sum.splits)
  have absent: "prdf key = None" if "key \<notin> set keys" for key
    using normalize_prdfs_other [OF np that] by simp
  have present: "\<exists>hist amount.
        np_histogram (bucket key zs) edges = Inr hist \<and>
        map_of (to_reduced_dict s) (fst key) = Some amount \<and>
        prdf key = Some (normalize_counts hist (shell_volume edges)
                           (Some (amount * real (num_sites s))))"
    if "key \<in> set keys" for key
  proof -
    from normalize_prdfs_key [OF np that] obtain dists hist amount where
      k: "dbt key = Some dists" "np_histogram dists edges = Inr hist"
         "map_of (to_reduced_dict s) (fst key) = Some amount"
         "prdf key = Some (normalize_counts hist (shell_volume edges)
                             (Some (amount * real (num_sites s))))"
      by blast
    have "dbt0 key = Some []"
      using that by (simp add: dbt0_def empty_buckets)
    with sort_neighbors_bucket [OF sn, of key] k(1) have "dists = bucket key zs" by simp
    with k show ?thesis by blast
  qed
  show ?thesis
    using mb db absent present unfolding in_keys zs_def by blast
qed

lemma prdf_block_length:
  assumes "make_bins fl self = Inr edges"
    and "np_histogram a edges = Inr hist"
  shows "length (normalize_counts hist (shell_volume edges) x) = length edges - 1"
  using length_np_histogram [OF assms(2)]
  by (simp add: length_normalize length_shell_volume)

text \<open>
  The feature vector is the concatenation of one block per pair of
  \<^verbatim>\<open>combinations_with_replacement\<close>, every block as long as there are bins.
\<close>

lemma prdf_featurize_blocks:
  assumes "elements' self = Some els" and "prdf_featurize fl self s = Inr v"
  shows "\<exists>edges prdf.
           make_bins fl self = Inr edges \<and>
           compute_prdf fl self s = Inr (butlast edges, prdf) \<and>
           length v = (Suc (length els) choose 2) * (length edges - 1) \<and>
           (\<forall>p. p < length (combinations_with_replacement els) \<longrightarrow>
              take (length edges - 1) (drop (p * (length edges - 1)) v)
                = (case prdf (combinations_with_replacement els ! p) of
                     None \<Rightarrow> replicate (length edges - 1) (Some 0)
                   | Some x \<Rightarrow> x))"
proof -
  from assms obtain db prdf where
    cp: "compute_prdf fl self s = Inr (db, prdf)" and
    hs: "np_hstack (map (\<lambda>key. case prdf key of None \<Rightarrow> replicate (length db) (Some 0)
                                 | Some x \<Rightarrow> x)
                      (combinations_with_replacement els)) = Inr v"
    by (auto simp: prdf_featurize_def Let_def split: if_splits sum.splits)
  from compute_prdf_result [OF cp] obtain edges where
    mb: "make_bins fl self = Inr edges" and db: "db = butlast edges" and
    absent: "\<And>key. fst key \<notin> fst ` set (to_reduced_dict s) \<or>
                   snd key \<notin> fst ` set (to_reduced_dict s) \<Longrightarrow> prdf key = None" and
    present: "\<And>key. fst key \<in> fst ` set (to_reduced_dict s) \<and>
                   snd key \<in> fst ` set (to_reduced_dict s) \<Longrightarrow>
              \<exists>hist amount.
                 np_histogram (bucket key (zip (sites s) (get_all_neighbors s (cutoff self))))
                    edges = Inr hist \<and>
                 map_of (to_reduced_dict s) (fst key) = Some amount \<and>
                 prdf key = Some (normalize_counts hist (shell_volume edges)
                                    (Some (amount * real (num_sites s))))"
    by blast
  define n where "n = length edges - 1"
  define block where
    "block = (\<lambda>key. case prdf key of None \<Rightarrow> replicate n (Some (0 :: real)) | Some x \<Rightarrow> x)"
  define bs where "bs = map block (combinations_with_replacement els)"
  have len_block: "length (block key) = n" for key
  proof (cases "prdf key")
    case None
    then show ?thesis by (simp add: block_def)
  next
    case (Some x)
    with absent [of key] have "fst key \<in> fst ` set (to_reduced_dict s) \<and>
                   snd key \<in> fst ` set (to_reduced_dict s)" by auto
    from present [OF this] Some show ?thesis
      using prdf_block_length [OF mb] by (auto simp: block_def n_def)
  qed
  have ldb: "length db = n" by (simp add: db n_def)
  have v: "v = concat bs"
    using hs unfolding ldb by (auto simp: np_hstack_def bs_def block_def split: if_splits)
  have all: "length b = n" if "b \<in> set bs" for b
    using that len_block by (auto simp: bs_def)
  have "length v = length bs * n"
    unfolding v using all by (rule concat_blocks_length)
  then have len: "length v = (Suc (length els) choose 2) * n"
    by (simp add: bs_def length_combinations_with_replacement)
  have nth: "take n (drop (p * n) v) = block (combinations_with_replacement els ! p)"
    if "p < length (combinations_with_replacement els)" for p
  proof -
    have "take n (drop (p * n) (concat bs)) = bs ! p"
      using all that by (intro concat_blocks_nth) (simp_all add: bs_def)
    with that show ?thesis by (simp add: v bs_def)
  qed
  show ?thesis
    using mb cp len nth unfolding db n_def block_def by blast
qed

text \<open>When the loops of \<^verbatim>\<open>compute_prdf\<close> run through.\<close>

lemma append_neighbors_returns:
  assumes "\<And>nsite rij. (nsite, rij) \<in> set nlst \<Longrightarrow>
             \<exists>n_elem. get_symbol nsite = Inr n_elem \<and> dbt (my_elem, n_elem) \<noteq> None"
  shows "\<exists>dbt'. append_neighbors my_elem dbt nlst = Inr dbt' \<and>
           (\<forall>key. (dbt' key = None) = (dbt key = None))"
  using assms
proof (induction nlst arbitrary: dbt)
  case Nil
  then show ?case by simp
next
  case (Cons p nlst)
  obtain nsite rij where p: "p = (nsite, rij)" by (cases p)
  from Cons.prems [of nsite rij] obtain n_elem ds where
    n: "get_symbol nsite = Inr n_elem" and d: "dbt (my_elem, n_elem) = Some ds"
    by (auto simp: p)
  define dbt1 where "dbt1 = dbt((my_elem, n_elem) \<mapsto> ds @ [rij])"
  have same: "(dbt1 key = None) = (dbt key = None)" for key
    using d by (auto simp: dbt1_def)
  have "\<exists>dbt'. append_neighbors my_elem dbt1 nlst = Inr dbt' \<and>
           (\<forall>key. (dbt' key = None) = (dbt1 key = None))"
  proof (rule Cons.IH)
    fix ns r assume "(ns, r) \<in> set nlst"
    with Cons.prems [of ns r] show "\<exists>n_elem. get_symbol ns = Inr n_elem \<and> dbt1 (my_elem, n_elem) \<noteq> None"
      by (simp add: same)
  qed
  then show ?case
    using n d same by (auto simp: p dbt1_def)
qed

lemma sort_neighbors_returns:
  assumes "\<And>st nlst. (st, nlst) \<in> set zs \<Longrightarrow>
             \<exists>my_elem. get_symbol st = Inr my_elem \<and>
               (\<forall>nsite rij. (nsite, rij) \<in> set nlst \<longrightarrow>
                  (\<exists>n_elem. get_symbol nsite = Inr n_elem \<and> dbt (my_elem, n_elem) \<noteq> None))"
  shows "\<exists>dbt'. sort_neighbors dbt zs = Inr dbt' \<and> (\<forall>key. (dbt' key = None) = (dbt key = None))"
  using assms
proof (induction zs arbitrary: dbt)
  case Nil
  then show ?case by simp
next
  case (Cons z zs)
  obtain st nlst where z: "z = (st, nlst)" by (cases z)
  have "(st, nlst) \<in> set (z # zs)" by (simp add: z)
  from Cons.prems [OF this] obtain my_elem where
    m: "get_symbol st = Inr my_elem" and
    ns': "\<forall>nsite rij. (nsite, rij) \<in> set nlst \<longrightarrow>
           (\<exists>n_elem. get_symbol nsite = Inr n_elem \<and> dbt (my_elem, n_elem) \<noteq> None)"
    by blast
  have ns: "\<exists>n_elem. get_symbol nsite = Inr n_elem \<and> dbt (my_elem, n_elem) \<noteq> None"
    if "(nsite, rij) \<in> set nlst" for nsite rij
    using ns' that by blast
  have "\<exists>dbt'. append_neighbors my_elem dbt nlst = Inr dbt' \<and>
           (\<forall>key. (dbt' key = None) = (dbt key = None))"
  proof (rule append_neighbors_returns)
    fix nsite rij assume "(nsite, rij) \<in> set nlst"
    then show "\<exists>n_elem. get_symbol nsite = Inr n_elem \<and> dbt (my_elem, n_elem) \<noteq> None"
      by (rule ns)
  qed
  then obtain dbt1 where
    a: "append_neighbors my_elem dbt nlst = Inr dbt1" and
    same: "\<And>key. (dbt1 key = None) = (dbt key = None)"
    by blast
  have "\<exists>dbt'. sort_neighbors dbt1 zs = Inr dbt' \<and> (\<forall>key. (dbt' key = None) = (dbt1 key = None))"
  proof (rule Cons.IH)
    fix st' nlst' assume "(st', nlst') \<in> set zs"
    with Cons.prems [of st' nlst']
    show "\<exists>my_elem. get_symbol st' = Inr my_elem \<and>
               (\<forall>nsite rij. (nsite, rij) \<in> set nlst' \<longrightarrow>
                  (\<exists>n_elem. get_symbol nsite = Inr n_elem \<and> dbt1 (my_elem, n_elem) \<noteq> None))"
      by (simp add: same)
  qed
  then show ?case
    using m a same by (auto simp: z)
qed

lemma normalize_prdfs_returns:
  assumes "sorted bins"
    and "\<And>key. key \<in> set keys \<Longrightarrow> dbt key \<noteq> None \<and> map_of reduced (fst key) \<noteq> None"
  shows "\<exists>prdf'. normalize_prdfs reduced n bins shell dbt prdf keys = Inr prdf'"
  using assms(2)
proof (induction keys arbitrary: prdf)
  case Nil
  then show ?case by simp
next
  case (Cons k keys)
  from Cons.prems [of k] obtain dists amount where
    k: "dbt k = Some dists" "map_of reduced (fst k) = Some amount" by auto
  have h: "np_histogram dists bins = Inr (np_diff (map int (search_sorted_inclusive (sort dists) bins)))"
    using assms(1) by (rule np_histogram_sorted)
  have "\<exists>prdf'. normalize_prdfs reduced n bins shell dbt
          (prdf(k \<mapsto> normalize_counts (np_diff (map int (search_sorted_inclusive (sort dists) bins)))
                         shell (Some (amount * real n)))) keys = Inr prdf'"
    by (rule Cons.IH) (simp add: Cons.prems)
  then show ?case
    using k h by (simp add: Let_def)
qed

text \<open>
  A fitted engine with a non-empty vocabulary and a positive bin size returns a vector
  for every ordered structure whose sites and neighbours are ordered sites of elements
  of its composition.
\<close>

lemma prdf_featurize_returns:
  assumes "is_ordered s" and "elements' self = Some els" and "els \<noteq> []"
    and "0 < bin_size self"
    and "\<And>st nlst. (st, nlst) \<in> set (zip (sites s) (get_all_neighbors s (cutoff self))) \<Longrightarrow>
           \<exists>my_elem. get_symbol st = Inr my_elem \<and> my_elem \<in> fst ` set (to_reduced_dict s) \<and>
             (\<forall>nsite rij. (nsite, rij) \<in> set nlst \<longrightarrow>
                (\<exists>n_elem. get_symbol nsite = Inr n_elem \<and> n_elem \<in> fst ` set (to_reduced_dict s)))"
  shows "\<exists>v. prdf_featurize fl self s = Inr v"
proof -
  define keys where
    "keys = List.product (map fst (to_reduced_dict s)) (map fst (to_reduced_dict s))"
  define zs where "zs = zip (sites s) (get_all_neighbors s (cutoff self))"
  define dbt0 where "dbt0 = fold (\<lambda>p dbt. dbt(p \<mapsto> [])) keys (Map.empty :: distances_by_type)"
  define edges where "edges = map (\<lambda>i. real i * bin_size self)
              [0 ..< nat \<lceil>fl_div fl (fl_add fl (cutoff self) (bin_size self)) (bin_size self)\<rceil>]"
  have dbt0: "dbt0 (a, b) \<noteq> None \<longleftrightarrow>
      a \<in> fst ` set (to_reduced_dict s) \<and> b \<in> fst ` set (to_reduced_dict s)" for a b
    by (auto simp: dbt0_def empty_buckets keys_def)
  have "\<exists>dbt'. sort_neighbors dbt0 zs = Inr dbt' \<and> (\<forall>key. (dbt' key = None) = (dbt0 key = None))"
  proof (rule sort_neighbors_returns)
    fix st nlst assume "(st, nlst) \<in> set zs"
    from assms(5) [OF this [unfolded zs_def]]
    show "\<exists>my_elem. get_symbol st = Inr my_elem \<and>
               (\<forall>nsite rij. (nsite, rij) \<in> set nlst \<longrightarrow>
                  (\<exists>n_elem. get_symbol nsite = Inr n_elem \<and> dbt0 (my_elem, n_elem) \<noteq> None))"
      unfolding dbt0 by blast
  qed
  then obtain dbt where sn: "sort_neighbors dbt0 zs = Inr dbt" and
    same: "\<And>key. (dbt key = None) = (dbt0 key = None)" by blast
  have mb: "make_bins fl self = Inr edges"
    using assms(4) by (simp add: make_bins_pos edges_def)
  have "sorted_wrt (<) edges"
    using assms(4) by (simp add: edges_def edges_strictly_increasing)
  then have sorted: "sorted edges" by (simp add: strict_sorted_iff)
  have "\<exists>prdf. normalize_prdfs (to_reduced_dict s) (num_sites s) edges (shell_volume edges) dbt
           Map.empty keys = Inr prdf"
  proof (rule normalize_prdfs_returns [OF sorted])
    fix key assume k: "key \<in> set keys"
    then have "dbt0 key \<noteq> None" by (simp add: dbt0_def empty_buckets)
    moreover have "fst key \<in> fst ` set (to_reduced_dict s)"
      using k by (auto simp: keys_def mem_Times_iff)
    then have "map_of (to_reduced_dict s) (fst key) \<noteq> None"
      by (simp add: map_of_eq_None_iff)
    ultimately show "dbt key \<noteq> None \<and> map_of (to_reduced_dict s) (fst key) \<noteq> None"
      by (simp add: same)
  qed
  then obtain prdf where np: "normalize_prdfs (to_reduced_dict s) (num_sites s) edges
           (shell_volume edges) dbt Map.empty keys = Inr prdf" by blast
  have cp: "compute_prdf fl self s = Inr (butlast edges, prdf)"
    using sn mb np by (simp add: compute_prdf_def Let_def keys_def zs_def dbt0_def)
  have "combinations_with_replacement els \<noteq> []"
    using assms(3) by (cases els) simp_all
  then show ?thesis
    using assms(1,2) cp by (simp add: prdf_featurize_def np_hstack_def)
qed

lemma known_symbols_sites:
  assumes "known_symbols s r" and "(st, nlst) \<in> set (zip (sites s) (get_all_neighbors s r))"
  shows "\<exists>my_elem. get_symbol st = Inr my_elem \<and> my_elem \<in> fst ` set (to_reduced_dict s) \<and>
           (\<forall>nsite rij. (nsite, rij) \<in> set nlst \<longrightarrow>
              (\<exists>n_elem. get_symbol nsite = Inr n_elem \<and> n_elem \<in> fst ` set (to_reduced_dict s)))"
proof -
  from assms have
    st: "(case get_symbol st of Inl e \<Rightarrow> False
          | Inr my_elem \<Rightarrow> my_elem \<in> set (map fst (to_reduced_dict s)))" and
    ns: "\<And>nsite rij. (nsite, rij) \<in> set nlst \<Longrightarrow>
           (case get_symbol nsite of Inl e \<Rightarrow> False
            | Inr n_elem \<Rightarrow> n_elem \<in> set (map fst (to_reduced_dict s)))"
    by (auto simp: known_symbols_def list_all_iff)
  from st obtain my_elem where "get_symbol st = Inr my_elem"
    "my_elem \<in> fst ` set (to_reduced_dict s)"
    by (cases "get_symbol st") auto
  moreover have "\<exists>n_elem. get_symbol nsite = Inr n_elem \<and> n_elem \<in> fst ` set (to_reduced_dict s)"
    if "(nsite, rij) \<in> set nlst" for nsite rij
    using ns [OF that] by (cases "get_symbol nsite") auto
  ultimately show ?thesis by blast
qed

lemmas nacl_eval = nacl_chain_def na_site_def cl_site_def site_specie_def site_is_ordered_def
  np_div_def num_sites_def prdf_featurize_def is_ordered_def compute_prdf_def get_symbol_def
  make_bins_def np_arange_def exact_ops_def shell_volume_def normalize_counts_def np_histogram_def
  bins_decrease_def search_sorted_inclusive_def searchsorted_left_def searchsorted_right_def
  np_diff_def np_hstack_def upt_conv_Cons numeral_eq_Suc

text \<open>
  C4. A fitted engine with a vocabulary of \<open>k\<close> elements returns, whenever it returns,
  a vector of exactly \<open>C(k+1, 2) * nbins\<close> values, \<open>nbins\<close> being the number of edges minus
  one; the block of a pair with an element that is no key of the structure's composition
  is \<open>nbins\<close> zeros. It does return for every ordered structure with known symbols when
  the vocabulary is not empty and the bin size is positive.
\<close>

theorem prdf_featurize_length:
  assumes "elements' self = Some els"
  shows "(is_ordered s \<and> known_symbols s (cutoff self) \<and> els \<noteq> [] \<and> 0 < bin_size self
            \<longrightarrow> (\<exists>v. prdf_featurize fl self s = Inr v)) \<and>
         (\<forall>v. prdf_featurize fl self s = Inr v \<longrightarrow>
            (\<exists>edges. make_bins fl self = Inr edges \<and>
               length v = (Suc (length els) choose 2) * (length edges - 1) \<and>
               (\<forall>p. p < length (combinations_with_replacement els) \<and>
                     (fst (combinations_with_replacement els ! p) \<notin> fst ` set (to_reduced_dict s) \<or>
                      snd (combinations_with_replacement els ! p) \<notin> fst ` set (to_reduced_dict s))
                  \<longrightarrow> take (length edges - 1) (drop (p * (length edges - 1)) v)
                        = replicate (length edges - 1) (Some 0))))"
proof (intro conjI allI impI)
  assume h: "is_ordered s \<and> known_symbols s (cutoff self) \<and> els \<noteq> [] \<and> 0 < bin_size self"
  show "\<exists>v. prdf_featurize fl self s = Inr v"
  proof (rule prdf_featurize_returns)
    show "is_ordered s" "elements' self = Some els" "els \<noteq> []" "0 < bin_size self"
      using h assms by simp_all
  next
    fix st nlst
    assume "(st, nlst) \<in> set (zip (sites s) (get_all_neighbors s (cutoff self)))"
    with h show "\<exists>my_elem. get_symbol st = Inr my_elem \<and> my_elem \<in> fst ` set (to_reduced_dict s) \<and>
           (\<forall>nsite rij. (nsite, rij) \<in> set nlst \<longrightarrow>
              (\<exists>n_elem. get_symbol nsite = Inr n_elem \<and> n_elem \<in> fst ` set (to_reduced_dict s)))"
      by (intro known_symbols_sites) simp_all
  qed
next
  fix v assume v: "prdf_featurize fl self s = Inr v"
  from prdf_featurize_blocks [OF assms v] obtain edges prdf where
    mb: "make_bins fl self = Inr edges" and
    cp: "compute_prdf fl self s = Inr (butlast edges, prdf)" and
    len: "length v = (Suc (length els) choose 2) * (length edges - 1)" and
    blk: "\<And>p. p < length (combinations_with_replacement els) \<Longrightarrow>
            take (length edges - 1) (drop (p * (length edges - 1)) v)
              = (case prdf (combinations_with_replacement els ! p) of
                   None \<Rightarrow> replicate (length edges - 1) (Some 0) | Some x \<Rightarrow> x)"
    by blast
  from compute_prdf_result [OF cp] mb have
    absent: "\<And>key. fst key \<notin> fst ` set (to_reduced_dict s) \<or>
                   snd key \<notin> fst ` set (to_reduced_dict s) \<Longrightarrow> prdf key = None"
    by blast
  have "take (length edges - 1) (drop (p * (length edges - 1)) v)
          = replicate (length edges - 1) (Some 0)"
    if "p < length (combinations_with_replacement els) \<and>
        (fst (combinations_with_replacement els ! p) \<notin> fst ` set (to_reduced_dict s) \<or>
         snd (combinations_with_replacement els ! p) \<notin> fst ` set (to_reduced_dict s))" for p
    using blk [of p] absent [of "combinations_with_replacement els ! p"] that by simp
  with mb len show "\<exists>edges. make_bins fl self = Inr edges \<and>
               length v = (Suc (length els) choose 2) * (length edges - 1) \<and>
               (\<forall>p. p < length (combinations_with_replacement els) \<and>
                     (fst (combinations_with_replacement els ! p) \<notin> fst ` set (to_reduced_dict s) \<or>
                      snd (combinations_with_replacement els ! p) \<notin> fst ` set (to_reduced_dict s))
                  \<longrightarrow> take (length edges - 1) (drop (p * (length edges - 1)) v)
                        = replicate (length edges - 1) (Some 0))"
    by blast
qed

theorem prdf_featurize_length_witness:
  "elements' \<lparr>cutoff = 2, bin_size = 1, elements' = Some [''Cl'', ''Fe'', ''Na''],
              include_elems = [], exclude_elems = []\<rparr> = Some [''Cl'', ''Fe'', ''Na''] \<and>
   prdf_featurize exact_ops \<lparr>cutoff = 2, bin_size = 1, elements' = Some [''Cl'', ''Fe'', ''Na''],
              include_elems = [], exclude_elems = []\<rparr> nacl_chain
     = Inr [Some 0, Some (3 / (14 * pi)), Some 0, Some 0, Some 0, Some (3 / (14 * pi)),
            Some 0, Some 0, Some 0, Some 0, Some 0, Some (3 / (14 * pi))] \<and>
   make_bins exact_ops \<lparr>cutoff = 2, bin_size = 1, elements' = Some [''Cl'', ''Fe'', ''Na''],
              include_elems = [], exclude_elems = []\<rparr> = Inr [0, 1, 2] \<and>
   length [Some 0, Some (3 / (14 * pi)), Some 0, Some 0, Some 0, Some (3 / (14 * pi)),
            Some 0, Some 0, Some 0, Some 0, Some 0, Some (3 / (14 * pi))]
     = (Suc (length [''Cl'', ''Fe'', ''Na'']) choose 2) * (length [0, 1, 2 :: real] - 1)"
proof -
  define eng where "eng = \<lparr>cutoff = 2, bin_size = 1, elements' = Some [''Cl'', ''Fe'', ''Na''],
              include_elems = [], exclude_elems = []\<rparr>"
  define V where "V = [Some 0, Some (3 / (14 * pi)), Some 0, Some 0, Some 0, Some (3 / (14 * pi)),
            Some 0, Some 0, Some 0, Some 0, Some 0, Some (3 / (14 * pi))]"
  have h: "elements' eng = Some [''Cl'', ''Fe'', ''Na'']" by (simp add: eng_def)
  have v: "prdf_featurize exact_ops eng nacl_chain = Inr V"
    by (simp add: eng_def V_def nacl_eval)
  have e: "make_bins exact_ops eng = Inr [0, 1, 2]"
    by (simp add: eng_def make_bins_def np_arange_def exact_ops_def upt_conv_Cons)
  from prdf_featurize_length [OF h, of nacl_chain exact_ops] v obtain edges where
    "make_bins exact_ops eng = Inr edges"
    "length V = (Suc (length [''Cl'', ''Fe'', ''Na'']) choose 2) * (length edges - 1)"
    by blast
  with e have "length V = (Suc (length [''Cl'', ''Fe'', ''Na'']) choose 2) * (length [0, 1, 2 :: real] - 1)"
    by simp
  with h v e show ?thesis unfolding eng_def V_def by blast
qed

text \<open>
  C10. In the vector of a fitted engine the block of the pair \<open>(e1, e2)\<close>, in the order of
  \<^verbatim>\<open>combinations_with_replacement\<close> over the vocabulary, is the normalised histogram of
  the bucket with origin element \<open>e1\<close> and neighbour element \<open>e2\<close>, divided by
  \<open>n_alpha\<close> of \<open>e1\<close>; for \<open>e1 \<noteq> e2\<close> the reverse pair \<open>(e2, e1)\<close> is no pair of the
  enumeration, so its bucket never reaches the vector.
\<close>

theorem prdf_featurize_block:
  assumes "elements' self = Some els" and "prdf_featurize fl self s = Inr v"
    and "p < length (combinations_with_replacement els)"
    and "combinations_with_replacement els ! p = (e1, e2)"
    and "e1 \<in> fst ` set (to_reduced_dict s)" and "e2 \<in> fst ` set (to_reduced_dict s)"
  shows "\<exists>edges hist amount.
           make_bins fl self = Inr edges \<and>
           np_histogram (bucket (e1, e2) (zip (sites s) (get_all_neighbors s (cutoff self))))
             edges = Inr hist \<and>
           map_of (to_reduced_dict s) e1 = Some amount \<and>
           take (length edges - 1) (drop (p * (length edges - 1)) v)
             = normalize_counts hist (shell_volume edges) (Some (amount * real (num_sites s))) \<and>
           (distinct els \<and> e1 \<noteq> e2 \<longrightarrow> (e2, e1) \<notin> set (combinations_with_replacement els))"
proof -
  from prdf_featurize_blocks [OF assms(1,2)] obtain edges prdf where
    mb: "make_bins fl self = Inr edges" and
    cp: "compute_prdf fl self s = Inr (butlast edges, prdf)" and
    blk: "\<And>p. p < length (combinations_with_replacement els) \<Longrightarrow>
            take (length edges - 1) (drop (p * (length edges - 1)) v)
              = (case prdf (combinations_with_replacement els ! p) of
                   None \<Rightarrow> replicate (length edges - 1) (Some 0) | Some x \<Rightarrow> x)"
    by blast
  from compute_prdf_result [OF cp] mb have
    "\<exists>hist amount.
       np_histogram (bucket (e1, e2) (zip (sites s) (get_all_neighbors s (cutoff self))))
          edges = Inr hist \<and>
       map_of (to_reduced_dict s) (fst (e1, e2)) = Some amount \<and>
       prdf (e1, e2) = Some (normalize_counts hist (shell_volume edges)
                          (Some (amount * real (num_sites s))))"
    using assms(5,6) by auto
  then obtain hist amount where
    hist: "np_histogram (bucket (e1, e2) (zip (sites s) (get_all_neighbors s (cutoff self))))
             edges = Inr hist" and
    amount: "map_of (to_reduced_dict s) e1 = Some amount" and
    val: "prdf (e1, e2) = Some (normalize_counts hist (shell_volume edges)
                          (Some (amount * real (num_sites s))))"
    by auto
  have "take (length edges - 1) (drop (p * (length edges - 1)) v)
          = normalize_counts hist (shell_volume edges) (Some (amount * real (num_sites s)))"
    using blk [OF assms(3)] assms(4) val by simp
  moreover have "(e2, e1) \<notin> set (combinations_with_replacement els)"
    if "distinct els \<and> e1 \<noteq> e2"
  proof -
    have "(e1, e2) \<in> set (combinations_with_replacement els)"
      using assms(3,4) by (metis nth_mem)
    with that show ?thesis by (intro reverse_pair_not_listed) simp_all
  qed
  ultimately show ?thesis
    using mb hist amount by blast
qed

theorem prdf_featurize_block_witness:
  "elements' \<lparr>cutoff = 2, bin_size = 1, elements' = Some [''Cl'', ''Na''],
              include_elems = [], exclude_elems = []\<rparr> = Some [''Cl'', ''Na''] \<and>
   prdf_featurize exact_ops \<lparr>cutoff = 2, bin_size = 1, elements' = Some [''Cl'', ''Na''],
              include_elems = [], exclude_elems = []\<rparr> nacl_chain
     = Inr [Some 0, Some (3 / (14 * pi)), Some 0, Some (3 / (14 * pi)),
            Some 0, Some (3 / (14 * pi))] \<and>
   combinations_with_replacement [''Cl'', ''Na''] ! 1 = (''Cl'', ''Na'') \<and>
   bucket (''Cl'', ''Na'') (zip (sites nacl_chain) (get_all_neighbors nacl_chain 2)) = [1, 1] \<and>
   np_histogram [1, 1] [0, 1, 2] = Inr [0, 2] \<and>
   take 2 (drop (1 * 2) [Some 0, Some (3 / (14 * pi)), Some 0, Some (3 / (14 * pi)),
            Some 0, Some (3 / (14 * pi))])
     = normalize_counts [0, 2] (shell_volume [0, 1, 2]) (Some (1 / 2 * real (num_sites nacl_chain))) \<and>
   (''Na'', ''Cl'') \<notin> set (combinations_with_replacement [''Cl'', ''Na''])"
proof -
  define eng where "eng = \<lparr>cutoff = 2, bin_size = 1, elements' = Some [''Cl'', ''Na''],
              include_elems = [], exclude_elems = []\<rparr>"
  define V where "V = [Some 0, Some (3 / (14 * pi)), Some 0, Some (3 / (14 * pi)),
            Some 0, Some (3 / (14 * pi))]"
  have h1: "elements' eng = Some [''Cl'', ''Na'']" by (simp add: eng_def)
  have h2: "prdf_featurize exact_ops eng nacl_chain = Inr V"
    by (simp add: eng_def V_def nacl_eval)
  have h3: "1 < length (combinations_with_replacement [''Cl'', ''Na''])" by simp
  have h4: "combinations_with_replacement [''Cl'', ''Na''] ! 1 = (''Cl'', ''Na'')" by simp
  have h5: "''Cl'' \<in> fst ` set (to_reduced_dict nacl_chain)"
    and h6: "''Na'' \<in> fst ` set (to_reduced_dict nacl_chain)"
    by (simp_all add: nacl_chain_def)
  have e: "make_bins exact_ops eng = Inr [0, 1, 2]"
    by (simp add: eng_def make_bins_def np_arange_def exact_ops_def upt_conv_Cons)
  have b: "bucket (''Cl'', ''Na'') (zip (sites nacl_chain) (get_all_neighbors nacl_chain (cutoff eng)))
             = [1, 1]"
    by (simp add: bucket_def nacl_chain_def na_site_def cl_site_def get_symbol_def
        site_specie_def site_is_ordered_def)
  have b2: "bucket (''Cl'', ''Na'') (zip (sites nacl_chain) (get_all_neighbors nacl_chain 2))
             = [1, 1]"
    using b by (simp add: eng_def)
  have c: "np_histogram [1, 1] [0, 1, 2] = Inr [0, 2]"
    by (simp add: np_histogram_def bins_decrease_def search_sorted_inclusive_def
        searchsorted_left_def searchsorted_right_def np_diff_def)
  have m: "map_of (to_reduced_dict nacl_chain) ''Cl'' = Some (1 / 2)"
    by (simp add: nacl_chain_def)
  from prdf_featurize_block [OF h1 h2 h3 h4 h5 h6] obtain edges hist amount where
    1: "make_bins exact_ops eng = Inr edges" and
    2: "np_histogram (bucket (''Cl'', ''Na'')
           (zip (sites nacl_chain) (get_all_neighbors nacl_chain (cutoff eng)))) edges = Inr hist" and
    3: "map_of (to_reduced_dict nacl_chain) ''Cl'' = Some amount" and
    4: "take (length edges - 1) (drop (1 * (length edges - 1)) V)
          = normalize_counts hist (shell_volume edges) (Some (amount * real (num_sites nacl_chain)))" and
    5: "distinct [''Cl'', ''Na''] \<and> ''Cl'' \<noteq> ''Na''
          \<longrightarrow> (''Na'', ''Cl'') \<notin> set (combinations_with_replacement [''Cl'', ''Na''])"
    by blast
  from 1 e have edges: "edges = [0, 1, 2]" by simp
  from 2 b c edges have hist: "hist = [0, 2]" by simp
  from 3 m have amount: "amount = 1 / 2" by simp
  have l: "length [0, 1, 2 :: real] - 1 = 2" by simp
  from 4 have
    "take 2 (drop (1 * 2) V)
       = normalize_counts [0, 2] (shell_volume [0, 1, 2]) (Some (1 / 2 * real (num_sites nacl_chain)))"
    unfolding edges hist amount l .
  moreover from 5 have "(''Na'', ''Cl'') \<notin> set (combinations_with_replacement [''Cl'', ''Na''])"
    by simp
  ultimately show ?thesis
    using h1 h2 h4 b2 c unfolding eng_def V_def by blast
qed

subsection \<open>The PRDF vocabulary\<close>

lemma set_set_update: "set (set_update els new) = set els \<union> set new"
  by (auto simp: set_update_def List.union_def [symmetric])

lemma distinct_set_update: "distinct els \<Longrightarrow> distinct (set_update els new)"
  by (simp add: set_update_def List.union_def [symmetric])

lemma set_fold_set_update:
  "set (fold (\<lambda>strc els. set_update els (f strc)) X els0) = set els0 \<union> (\<Union>strc\<in>set X. set (f strc))"
  by (induction X arbitrary: els0) (auto simp: set_set_update)

lemma distinct_fold_set_update:
  "distinct els0 \<Longrightarrow> distinct (fold (\<lambda>strc els. set_update els (f strc)) X els0)"
  by (induction X arbitrary: els0) (simp_all add: distinct_set_update)

lemma sorted_by_key_unique:
  assumes "sorted (map k xs)" and "distinct xs" and "sorted (map k ys)" and "distinct ys"
    and "set xs = set ys" and "inj_on k (set xs)"
  shows "xs = ys"
proof -
  have "distinct (map k xs)" "distinct (map k ys)"
    using assms(2,4,5,6) by (simp_all add: distinct_map)
  moreover have "set (map k xs) = set (map k ys)"
    using assms(5) by simp
  ultimately have "map k xs = map k ys"
    using assms(1,3) by (intro sorted_distinct_set_unique)
  then show ?thesis
    using assms(5,6) by (intro map_inj_on [of k]) simp_all
qed

lemma prdf_fit_valid:
  assumes "list_all is_symbol (include_elems self)" and "list_all is_symbol (exclude_elems self)"
  shows "prdf_fit is_symbol order_key self X =
           Inr (self\<lparr>elements' := Some (sort_key order_key
              (filter (\<lambda>e. e \<notin> set (exclude_elems self))
                 (fold (\<lambda>strc els. set_update els (map (base_element \<circ> fst) (composition strc)))
                    X (set_update [] (include_elems self)))))\<rparr>)"
  using assms by (simp add: prdf_fit_def Elements_def)

text \<open>
  C6. With valid symbols, \<^verbatim>\<open>fit\<close> stores the included elements and the base elements of
  all species of all compositions, less the excluded elements, without repetition and
  sorted by the order of the elements; the result depends on the set of structures
  only, not on their order or multiplicity in the list.
\<close>

theorem prdf_fit_vocabulary:
  assumes "list_all is_symbol (include_elems self)" and "list_all is_symbol (exclude_elems self)"
    and "inj_on order_key
           (set (include_elems self) \<union> (\<Union>strc\<in>set X. base_element ` fst ` set (composition strc)))"
  shows "\<exists>els. prdf_fit is_symbol order_key self X = Inr (self\<lparr>elements' := Some els\<rparr>) \<and>
           set els = (set (include_elems self)
                        \<union> (\<Union>strc\<in>set X. base_element ` fst ` set (composition strc)))
                     - set (exclude_elems self) \<and>
           distinct els \<and> sorted (map order_key els) \<and>
           (\<forall>X'. set X' = set X \<longrightarrow>
              prdf_fit is_symbol order_key self X' = prdf_fit is_symbol order_key self X)"
proof -
  define gather where "gather = (\<lambda>Y :: struct list.
     fold (\<lambda>strc els. set_update els (map (base_element \<circ> fst) (composition strc)))
        Y (set_update [] (include_elems self)))"
  define vocab where "vocab = (\<lambda>Y :: struct list. sort_key order_key
              (filter (\<lambda>e. e \<notin> set (exclude_elems self)) (gather Y)))"
  define A where "A = (\<lambda>Y :: struct list. set (include_elems self)
                        \<union> (\<Union>strc\<in>set Y. base_element ` fst ` set (composition strc)))"
  have fit: "prdf_fit is_symbol order_key self Y = Inr (self\<lparr>elements' := Some (vocab Y)\<rparr>)" for Y
    using prdf_fit_valid [OF assms(1,2)] by (simp add: vocab_def gather_def)
  have set_gather: "set (gather Y) = A Y" for Y
  proof -
    have "set (gather Y) = set (include_elems self)
            \<union> (\<Union>strc\<in>set Y. set (map (base_element \<circ> fst) (composition strc)))"
      unfolding gather_def set_fold_set_update set_set_update by simp
    also have "\<dots> = A Y"
      unfolding A_def by (simp add: image_comp)
    finally show ?thesis .
  qed
  have dist_gather: "distinct (gather Y)" for Y
    unfolding gather_def by (intro distinct_fold_set_update distinct_set_update) simp
  have set_vocab: "set (vocab Y) = A Y - set (exclude_elems self)" for Y
    by (auto simp: vocab_def set_gather)
  have dist_vocab: "distinct (vocab Y)" for Y
    by (simp add: vocab_def dist_gather)
  have sorted_vocab: "sorted (map order_key (vocab Y))" for Y
    by (simp add: vocab_def)
  have inj: "inj_on order_key (A X)"
    using assms(3) unfolding A_def .
  have same: "prdf_fit is_symbol order_key self X' = prdf_fit is_symbol order_key self X"
    if "set X' = set X" for X'
  proof -
    have AA: "A X' = A X" unfolding A_def that ..
    have sub: "set (vocab X') \<subseteq> A X"
      unfolding set_vocab AA by (rule Diff_subset)
    have "vocab X' = vocab X"
    proof (rule sorted_by_key_unique [of order_key])
      show "sorted (map order_key (vocab X'))" by (rule sorted_vocab)
      show "sorted (map order_key (vocab X))" by (rule sorted_vocab)
      show "distinct (vocab X')" by (rule dist_vocab)
      show "distinct (vocab X)" by (rule dist_vocab)
      show "set (vocab X') = set (vocab X)" unfolding set_vocab AA ..
      show "inj_on order_key (set (vocab X'))" by (rule inj_on_subset [OF inj sub])
    qed
    then show ?thesis unfolding fit by (rule arg_cong)
  qed
  have "prdf_fit is_symbol order_key self X = Inr (self\<lparr>elements' := Some (vocab X)\<rparr>) \<and>
           set (vocab X) = A X - set (exclude_elems self) \<and>
           distinct (vocab X) \<and> sorted (map order_key (vocab X)) \<and>
           (\<forall>X'. set X' = set X \<longrightarrow>
              prdf_fit is_symbol order_key self X' = prdf_fit is_symbol order_key self X)"
    using fit [of X] set_vocab [of X] dist_vocab [of X] sorted_vocab [of X] same
    by (intro conjI allI impI)
  then show ?thesis
    unfolding A_def by (rule exI [of _ "vocab X"])
qed

theorem prdf_fit_vocabulary_witness:
  "list_all (\<lambda>el. True) (include_elems (prdf_init 2 1 [] [])) \<and>
   list_all (\<lambda>el. True) (exclude_elems (prdf_init 2 1 [] [])) \<and>
   inj_on pauling (set (include_elems (prdf_init 2 1 [] []))
      \<union> (\<Union>strc\<in>set [fe_o, fe_ni]. base_element ` fst ` set (composition strc))) \<and>
   prdf_fit (\<lambda>el. True) pauling (prdf_init 2 1 [] []) [fe_o, fe_ni]
     = Inr ((prdf_init 2 1 [] [])\<lparr>elements' := Some [''Fe'', ''Ni'', ''O'']\<rparr>) \<and>
   prdf_fit (\<lambda>el. True) pauling (prdf_init 2 1 [] []) [fe_ni, fe_o]
     = Inr ((prdf_init 2 1 [] [])\<lparr>elements' := Some [''Fe'', ''Ni'', ''O'']\<rparr>)"
proof -
  have h1: "list_all (\<lambda>el. True) (include_elems (prdf_init 2 1 [] []))"
    and h2: "list_all (\<lambda>el. True) (exclude_elems (prdf_init 2 1 [] []))"
    by (simp_all add: prdf_init_def)
  have h3: "inj_on pauling (set (include_elems (prdf_init 2 1 [] []))
      \<union> (\<Union>strc\<in>set [fe_o, fe_ni]. base_element ` fst ` set (composition strc)))"
  proof -
    have "set (include_elems (prdf_init 2 1 [] []))
      \<union> (\<Union>strc\<in>set [fe_o, fe_ni]. base_element ` fst ` set (composition strc))
        = {''Fe'', ''Ni'', ''O''}"
      by (auto simp: prdf_init_def fe_o_def fe_ni_def base_element_def)
    moreover have "inj_on pauling {''Fe'', ''Ni'', ''O''}"
      by (auto simp: inj_on_def pauling_def)
    ultimately show ?thesis by simp
  qed
  have v: "prdf_fit (\<lambda>el. True) pauling (prdf_init 2 1 [] []) [fe_o, fe_ni]
     = Inr ((prdf_init 2 1 [] [])\<lparr>elements' := Some [''Fe'', ''Ni'', ''O'']\<rparr>)"
    by (simp add: prdf_fit_def Elements_def prdf_init_def set_update_def fe_o_def fe_ni_def
        base_element_def pauling_def)
  from prdf_fit_vocabulary [OF h1 h2 h3] have
    "\<forall>X'. set X' = set [fe_o, fe_ni] \<longrightarrow>
        prdf_fit (\<lambda>el. True) pauling (prdf_init 2 1 [] []) X'
          = prdf_fit (\<lambda>el. True) pauling (prdf_init 2 1 [] []) [fe_o, fe_ni]"
    by blast
  moreover have "set [fe_ni, fe_o] = set [fe_o, fe_ni]" by auto
  ultimately have "prdf_fit (\<lambda>el. True) pauling (prdf_init 2 1 [] []) [fe_ni, fe_o]
          = prdf_fit (\<lambda>el. True) pauling (prdf_init 2 1 [] []) [fe_o, fe_ni]"
    by blast
  with v h1 h2 h3 show ?thesis by simp
qed

subsection \<open>The ReDF engine\<close>

lemma py_int_nonneg: "0 \<le> x \<Longrightarrow> py_int x = \<lfloor>x\<rfloor>"
  by (simp add: py_int_def)

lemma np_index_in_range:
  "0 \<le> i \<Longrightarrow> i < int n \<Longrightarrow> np_index n i = Inr (nat i)"
  by (simp add: np_index_def)

lemma np_index_returns:
  "np_index n i = Inr k \<Longrightarrow> 0 \<le> i \<Longrightarrow> i < int n"
  by (simp add: np_index_def Let_def split: if_splits)

lemma oxi_state_charge_of:
  "(case oxi_state st of Inl e \<Rightarrow> False | Inr q \<Rightarrow> True) \<Longrightarrow> oxi_state st = Inr (charge_of st)"
  by (cases "oxi_state st") (simp_all add: charge_of_def)

lemma rounds_monotone_nonneg:
  assumes "rounds_monotone fl" and "0 < w" and "0 \<le> x"
  shows "0 \<le> fl_div fl x w"
proof -
  from assms have "fl_div fl 0 w \<le> fl_div fl x w"
    unfolding rounds_monotone_def by blast
  moreover from assms(1,2) have "fl_div fl 0 w = 0"
    unfolding rounds_monotone_def by blast
  ultimately show ?thesis by simp
qed

lemma rounds_monotone_floor:
  assumes "rounds_monotone fl" and "0 < w" and "x \<le> y"
  shows "\<lfloor>fl_div fl x w\<rfloor> \<le> \<lfloor>fl_div fl y w\<rfloor>"
proof -
  from assms have "fl_div fl x w \<le> fl_div fl y w"
    unfolding rounds_monotone_def by blast
  then show ?thesis by (rule floor_mono)
qed

text \<open>The inner loop, when every bin index is in range.\<close>

lemma redf_neighbors_sum:
  assumes "0 < n"
    and "\<And>nnsite d. (nnsite, d) \<in> set nbrs \<Longrightarrow>
           (case oxi_state nnsite of Inl e \<Rightarrow> False | Inr q \<Rightarrow> True) \<and> 0 < d \<and>
           0 \<le> fl_div fl d w \<and> \<lfloor>fl_div fl d w\<rfloor> < int (length distr)"
    and "\<And>i. i < length distr \<Longrightarrow> distr ! i = Some (f i)"
  shows "\<exists>distr'. redf_neighbors fl w n q distr nbrs = Inr distr' \<and>
           length distr' = length distr \<and>
           (\<forall>i. i < length distr \<longrightarrow>
              distr' ! i = Some (f i + sum_list (map (\<lambda>(nnsite, d). q * charge_of nnsite / (real n * d))
                                       (filter (\<lambda>(nnsite, d). \<lfloor>fl_div fl d w\<rfloor> = int i) nbrs))))"
  using assms(2,3)
proof (induction nbrs arbitrary: distr f)
  case Nil
  then show ?case by simp
next
  case (Cons p nbrs)
  obtain nnsite d where p: "p = (nnsite, d)" by (cases p)
  have "(nnsite, d) \<in> set (p # nbrs)" by (simp add: p)
  from Cons.prems(1) [OF this] have
    ox: "oxi_state nnsite = Inr (charge_of nnsite)" and d: "0 < d" and
    q0: "0 \<le> fl_div fl d w" and
    b: "\<lfloor>fl_div fl d w\<rfloor> < int (length distr)"
    by (simp_all add: oxi_state_charge_of)
  from q0 have f0: "0 \<le> \<lfloor>fl_div fl d w\<rfloor>" by simp
  define k where "k = nat \<lfloor>fl_div fl d w\<rfloor>"
  have k: "k < length distr" "int k = \<lfloor>fl_div fl d w\<rfloor>"
    using b f0 unfolding k_def by linarith+
  have idx: "np_index (length distr) (py_int (fl_div fl d w)) = Inr k"
    unfolding py_int_nonneg [OF q0] k_def by (rule np_index_in_range [OF f0 b])
  define t where "t = q * charge_of nnsite / (real n * d)"
  have "real n * d \<noteq> 0" using assms(1) d by simp
  then have tm: "np_div (Some (q * charge_of nnsite)) (Some (real n * d)) = Some t"
    by (simp add: np_div_def t_def)
  define distr1 where "distr1 = distr[k := Some (f k + t)]"
  define f1 where "f1 = (\<lambda>i. if i = k then f k + t else f i)"
  have step: "redf_neighbors fl w n q distr (p # nbrs) = redf_neighbors fl w n q distr1 nbrs"
    using ox idx tm Cons.prems(2) [OF k(1)]
    by (simp add: p distr1_def np_add_def)
  have len1: "length distr1 = length distr" by (simp add: distr1_def)
  have "\<exists>distr'. redf_neighbors fl w n q distr1 nbrs = Inr distr' \<and>
           length distr' = length distr1 \<and>
           (\<forall>i. i < length distr1 \<longrightarrow>
              distr' ! i = Some (f1 i + sum_list (map (\<lambda>(nnsite, d). q * charge_of nnsite / (real n * d))
                                       (filter (\<lambda>(nnsite, d). \<lfloor>fl_div fl d w\<rfloor> = int i) nbrs))))"
  proof (rule Cons.IH)
    fix nn d' assume "(nn, d') \<in> set nbrs"
    then have "(nn, d') \<in> set (p # nbrs)" by simp
    from Cons.prems(1) [OF this]
    show "(case oxi_state nn of Inl e \<Rightarrow> False | Inr q \<Rightarrow> True) \<and> 0 < d' \<and>
           0 \<le> fl_div fl d' w \<and> \<lfloor>fl_div fl d' w\<rfloor> < int (length distr1)"
      by (simp add: len1)
  next
    fix i assume "i < length distr1"
    then show "distr1 ! i = Some (f1 i)"
      using Cons.prems(2) [of i] by (simp add: distr1_def f1_def nth_list_update)
  qed
  then obtain distr' where
    r: "redf_neighbors fl w n q distr1 nbrs = Inr distr'" "length distr' = length distr1" and
    v: "\<And>i. i < length distr1 \<Longrightarrow>
              distr' ! i = Some (f1 i + sum_list (map (\<lambda>(nnsite, d). q * charge_of nnsite / (real n * d))
                                       (filter (\<lambda>(nnsite, d). \<lfloor>fl_div fl d w\<rfloor> = int i) nbrs)))"
    by blast
  have "distr' ! i = Some (f i + sum_list (map (\<lambda>(nnsite, d). q * charge_of nnsite / (real n * d))
                                       (filter (\<lambda>(nnsite, d). \<lfloor>fl_div fl d w\<rfloor> = int i) (p # nbrs))))"
    if "i < length distr" for i
  proof (cases "i = k")
    case True
    then have "\<lfloor>fl_div fl d w\<rfloor> = int i" using k(2) by simp
    with v [of i] that True show ?thesis
      by (simp add: len1 f1_def p t_def)
  next
    case False
    then have "\<lfloor>fl_div fl d w\<rfloor> \<noteq> int i" using k(2) by linarith
    with v [of i] that False show ?thesis
      by (simp add: len1 f1_def p)
  qed
  with r step len1 show ?case by simp
qed

lemma redf_terms_Cons:
  "redf_terms fl w c strc (st # sts) i =
     map (\<lambda>(nnsite, d). charge_of st * charge_of nnsite / (real (num_sites strc) * d))
       (filter (\<lambda>(nnsite, d). \<lfloor>fl_div fl d w\<rfloor> = int i) (get_neighbors strc st c))
     @ redf_terms fl w c strc sts i"
  by (simp add: redf_terms_def)

text \<open>The outer loop, when every bin index is in range.\<close>

lemma redf_sites_sum:
  assumes "0 < num_sites strc"
    and "\<And>st. st \<in> set sts \<Longrightarrow>
           (case oxi_state st of Inl e \<Rightarrow> False | Inr q \<Rightarrow> True) \<and>
           (\<forall>nnsite d. (nnsite, d) \<in> set (get_neighbors strc st c) \<longrightarrow>
              (case oxi_state nnsite of Inl e \<Rightarrow> False | Inr q \<Rightarrow> True) \<and> 0 < d \<and>
              0 \<le> fl_div fl d w \<and> \<lfloor>fl_div fl d w\<rfloor> < int (length distr))"
    and "\<And>i. i < length distr \<Longrightarrow> distr ! i = Some (f i)"
  shows "\<exists>distr'. redf_sites fl w c strc distr sts = Inr distr' \<and>
           length distr' = length distr \<and>
           (\<forall>i. i < length distr \<longrightarrow>
              distr' ! i = Some (f i + sum_list (redf_terms fl w c strc sts i)))"
  using assms(2,3)
proof (induction sts arbitrary: distr f)
  case Nil
  then show ?case by (simp add: redf_terms_def)
next
  case (Cons st sts)
  have "st \<in> set (st # sts)" by simp
  from Cons.prems(1) [OF this] have
    ox: "oxi_state st = Inr (charge_of st)" and
    nb: "\<And>nnsite d. (nnsite, d) \<in> set (get_neighbors strc st c) \<Longrightarrow>
              (case oxi_state nnsite of Inl e \<Rightarrow> False | Inr q \<Rightarrow> True) \<and> 0 < d \<and>
              0 \<le> fl_div fl d w \<and> \<lfloor>fl_div fl d w\<rfloor> < int (length distr)"
    by (simp_all add: oxi_state_charge_of)
  define S where "S = (\<lambda>i. sum_list
     (map (\<lambda>(nnsite, d). charge_of st * charge_of nnsite / (real (num_sites strc) * d))
        (filter (\<lambda>(nnsite, d). \<lfloor>fl_div fl d w\<rfloor> = int i) (get_neighbors strc st c))))"
  have "\<exists>distr'. redf_neighbors fl w (num_sites strc) (charge_of st) distr (get_neighbors strc st c)
            = Inr distr' \<and> length distr' = length distr \<and>
           (\<forall>i. i < length distr \<longrightarrow> distr' ! i = Some (f i + S i))"
    unfolding S_def by (rule redf_neighbors_sum [OF assms(1) nb Cons.prems(2)])
  then obtain distr1 where
    n1: "redf_neighbors fl w (num_sites strc) (charge_of st) distr (get_neighbors strc st c)
            = Inr distr1" and
    len1: "length distr1 = length distr" and
    v1: "\<And>i. i < length distr \<Longrightarrow> distr1 ! i = Some (f i + S i)"
    by blast
  have "\<exists>distr'. redf_sites fl w c strc distr1 sts = Inr distr' \<and>
           length distr' = length distr1 \<and>
           (\<forall>i. i < length distr1 \<longrightarrow>
              distr' ! i = Some ((f i + S i) + sum_list (redf_terms fl w c strc sts i)))"
  proof (rule Cons.IH)
    fix st' assume "st' \<in> set sts"
    then have "st' \<in> set (st # sts)" by simp
    from Cons.prems(1) [OF this]
    show "(case oxi_state st' of Inl e \<Rightarrow> False | Inr q \<Rightarrow> True) \<and>
           (\<forall>nnsite d. (nnsite, d) \<in> set (get_neighbors strc st' c) \<longrightarrow>
              (case oxi_state nnsite of Inl e \<Rightarrow> False | Inr q \<Rightarrow> True) \<and> 0 < d \<and>
              0 \<le> fl_div fl d w \<and> \<lfloor>fl_div fl d w\<rfloor> < int (length distr1))"
      unfolding len1 .
  next
    fix i assume "i < length distr1"
    then show "distr1 ! i = Some (f i + S i)"
      using v1 [of i] by (simp add: len1)
  qed
  then obtain distr' where
    r: "redf_sites fl w c strc distr1 sts = Inr distr'" "length distr' = length distr1" and
    v: "\<And>i. i < length distr1 \<Longrightarrow>
              distr' ! i = Some ((f i + S i) + sum_list (redf_terms fl w c strc sts i))"
    by blast
  have "redf_sites fl w c strc distr (st # sts) = Inr distr'"
    using ox n1 r(1) by simp
  moreover have "distr' ! i = Some (f i + sum_list (redf_terms fl w c strc (st # sts) i))"
    if "i < length distr" for i
    using v [of i] that by (simp add: len1 redf_terms_Cons S_def add.assoc)
  ultimately show ?case
    using r(2) len1 by simp
qed

text \<open>What a run of the loops without error tells about the sites and the neighbours.\<close>

lemma redf_neighbors_returned:
  assumes "redf_neighbors fl w n q distr nbrs = Inr distr'"
  shows "length distr' = length distr \<and>
         (\<forall>nnsite d. (nnsite, d) \<in> set nbrs \<longrightarrow>
            (case oxi_state nnsite of Inl e \<Rightarrow> False | Inr q \<Rightarrow> True) \<and>
            (\<exists>k. np_index (length distr) (py_int (fl_div fl d w)) = Inr k))"
  using assms
proof (induction nbrs arbitrary: distr)
  case Nil
  then show ?case by simp
next
  case (Cons p nbrs)
  obtain nnsite d where p: "p = (nnsite, d)" by (cases p)
  from Cons.prems obtain neigh_charge k where
    ox: "oxi_state nnsite = Inr neigh_charge" and
    idx: "np_index (length distr) (py_int (fl_div fl d w)) = Inr k" and
    r: "redf_neighbors fl w n q
          (distr[k := np_add (distr ! k)
             (np_div (Some (q * neigh_charge)) (Some (real n * d)))]) nbrs = Inr distr'"
    by (auto simp: p split: sum.splits)
  from Cons.IH [OF r] ox idx show ?case
    by (auto simp: p)
qed

lemma redf_sites_returned:
  assumes "redf_sites fl w c strc distr sts = Inr distr'"
  shows "length distr' = length distr \<and>
         (\<forall>st. st \<in> set sts \<longrightarrow>
            (case oxi_state st of Inl e \<Rightarrow> False | Inr q \<Rightarrow> True) \<and>
            (\<forall>nnsite d. (nnsite, d) \<in> set (get_neighbors strc st c) \<longrightarrow>
               (case oxi_state nnsite of Inl e \<Rightarrow> False | Inr q \<Rightarrow> True) \<and>
               (\<exists>k. np_index (length distr) (py_int (fl_div fl d w)) = Inr k)))"
  using assms
proof (induction sts arbitrary: distr)
  case Nil
  then show ?case by simp
next
  case (Cons st sts)
  from Cons.prems obtain this_charge distr1 where
    ox: "oxi_state st = Inr this_charge" and
    n1: "redf_neighbors fl w (num_sites strc) this_charge distr (get_neighbors strc st c)
           = Inr distr1" and
    r: "redf_sites fl w c strc distr1 sts = Inr distr'"
    by (auto split: sum.splits)
  from redf_neighbors_returned [OF n1] have
    len1: "length distr1 = length distr" and
    nb: "\<And>nnsite d. (nnsite, d) \<in> set (get_neighbors strc st c) \<Longrightarrow>
            (case oxi_state nnsite of Inl e \<Rightarrow> False | Inr q \<Rightarrow> True) \<and>
            (\<exists>k. np_index (length distr) (py_int (fl_div fl d w)) = Inr k)"
    by blast+
  from Cons.IH [OF r] have
    len: "length distr' = length distr1" and
    rest: "\<And>st'. st' \<in> set sts \<Longrightarrow>
            (case oxi_state st' of Inl e \<Rightarrow> False | Inr q \<Rightarrow> True) \<and>
            (\<forall>nnsite d. (nnsite, d) \<in> set (get_neighbors strc st' c) \<longrightarrow>
               (case oxi_state nnsite of Inl e \<Rightarrow> False | Inr q \<Rightarrow> True) \<and>
               (\<exists>k. np_index (length distr1) (py_int (fl_div fl d w)) = Inr k))"
    by blast+
  have "(case oxi_state st' of Inl e \<Rightarrow> False | Inr q \<Rightarrow> True) \<and>
            (\<forall>nnsite d. (nnsite, d) \<in> set (get_neighbors strc st' c) \<longrightarrow>
               (case oxi_state nnsite of Inl e \<Rightarrow> False | Inr q \<Rightarrow> True) \<and>
               (\<exists>k. np_index (length distr) (py_int (fl_div fl d w)) = Inr k))"
    if "st' \<in> set (st # sts)" for st'
  proof (cases "st' = st")
    case True
    with ox nb show ?thesis by simp
  next
    case False
    with that have "st' \<in> set sts" by simp
    from rest [OF this] show ?thesis unfolding len1 .
  qed
  with len len1 show ?case by simp
qed

lemma longest_diagonal_nonneg: "0 \<le> longest_diagonal m"
proof -
  have n: "0 \<le> linalg_norm u" for u
    by (cases u) (simp add: linalg_norm_def)
  obtain a b c where m: "m = (a, b, c)" by (cases m)
  show ?thesis
    unfolding m longest_diagonal_def prod.case
    using n [of "vadd (vadd a b) c"] by (simp add: le_max_iff_disj)
qed

lemma redf_resolved_cutoff_nonneg:
  assumes "case redf_cutoff self of None \<Rightarrow> True | Some c0 \<Rightarrow> 0 \<le> c0"
  shows "0 \<le> redf_resolved_cutoff self strc"
  using assms longest_diagonal_nonneg [of "lattice_matrix strc"]
  by (simp add: redf_resolved_cutoff_def split: option.splits)

text \<open>The call, when every bin index is in range.\<close>

lemma redf_featurize_in_range:
  assumes w: "0 < dr self" and mono: "rounds_monotone fl"
    and strc: "strc = redf_struct find_primitive add_oxidation_states s"
    and c: "c = redf_resolved_cutoff self strc" and c0: "0 \<le> c"
    and rng: "\<And>st. st \<in> set (sites strc) \<Longrightarrow>
           (case oxi_state st of Inl e \<Rightarrow> False | Inr q \<Rightarrow> True) \<and>
           (\<forall>nnsite d. (nnsite, d) \<in> set (get_neighbors strc st c) \<longrightarrow>
              (case oxi_state nnsite of Inl e \<Rightarrow> False | Inr q \<Rightarrow> True) \<and> 0 < d \<and>
              0 \<le> fl_div fl d (dr self) \<and>
              \<lfloor>fl_div fl d (dr self)\<rfloor> < \<lfloor>fl_div fl c (dr self)\<rfloor> + 1)"
  shows "\<exists>distr.
           redf_featurize fl find_primitive add_oxidation_states self s
             = (self\<lparr>redf_cutoff := Some c\<rparr>,
                Inr [\<lparr>distances = map (\<lambda>i. (real i + 0.5) * dr self)
                                    [0 ..< nat (\<lfloor>fl_div fl c (dr self)\<rfloor> + 1)],
                      distribution = distr\<rparr>]) \<and>
           length distr = nat (\<lfloor>fl_div fl c (dr self)\<rfloor> + 1) \<and>
           (\<forall>i. i < length distr \<longrightarrow>
              distr ! i = Some (sum_list (redf_terms fl (dr self) c strc (sites strc) i)))"
proof -
  define N where "N = nat (\<lfloor>fl_div fl c (dr self)\<rfloor> + 1)"
  define distr0 where "distr0 = replicate N (Some (0 :: real))"
  have q0: "0 \<le> fl_div fl c (dr self)" by (rule rounds_monotone_nonneg [OF mono w c0])
  then have f0: "0 \<le> \<lfloor>fl_div fl c (dr self)\<rfloor>" by simp
  have nbins: "py_int (fl_div fl c (dr self)) + 1 = \<lfloor>fl_div fl c (dr self)\<rfloor> + 1"
    by (simp only: py_int_nonneg [OF q0])
  have intN: "int N = \<lfloor>fl_div fl c (dr self)\<rfloor> + 1"
    using f0 unfolding N_def by linarith
  have nonneg: "\<not> \<lfloor>fl_div fl c (dr self)\<rfloor> + 1 < 0" using f0 by linarith
  have "\<exists>distr'. redf_sites fl (dr self) c strc distr0 (sites strc) = Inr distr' \<and>
           length distr' = length distr0 \<and>
           (\<forall>i. i < length distr0 \<longrightarrow>
              distr' ! i = Some (0 + sum_list (redf_terms fl (dr self) c strc (sites strc) i)))"
  proof (cases "sites strc = []")
    case True
    then show ?thesis by (simp add: redf_terms_def distr0_def)
  next
    case False
    then have n: "0 < num_sites strc" by (simp add: num_sites_def)
    show ?thesis
    proof (rule redf_sites_sum [OF n])
      fix st assume "st \<in> set (sites strc)"
      from rng [OF this]
      show "(case oxi_state st of Inl e \<Rightarrow> False | Inr q \<Rightarrow> True) \<and>
           (\<forall>nnsite d. (nnsite, d) \<in> set (get_neighbors strc st c) \<longrightarrow>
              (case oxi_state nnsite of Inl e \<Rightarrow> False | Inr q \<Rightarrow> True) \<and> 0 < d \<and>
              0 \<le> fl_div fl d (dr self) \<and>
              \<lfloor>fl_div fl d (dr self)\<rfloor> < int (length distr0))"
        by (simp add: distr0_def intN)
    next
      fix i assume "i < length distr0"
      then show "distr0 ! i = Some 0" by (simp add: distr0_def)
    qed
  qed
  then obtain distr where
    r: "redf_sites fl (dr self) c strc distr0 (sites strc) = Inr distr" and
    len: "length distr = N" and
    v: "\<And>i. i < N \<Longrightarrow> distr ! i = Some (sum_list (redf_terms fl (dr self) c strc (sites strc) i))"
    by (auto simp: distr0_def)
  have "redf_featurize fl find_primitive add_oxidation_states self s
             = (self\<lparr>redf_cutoff := Some c\<rparr>,
                Inr [\<lparr>distances = map (\<lambda>i. (real i + 0.5) * dr self) [0 ..< N],
                      distribution = distr\<rparr>])"
    using w r nonneg
    by (simp add: redf_featurize_def Let_def strc [symmetric] c [symmetric]
        nbins N_def [symmetric] distr0_def [symmetric])
  moreover have "distr ! i = Some (sum_list (redf_terms fl (dr self) c strc (sites strc) i))"
    if "i < length distr" for i
    using v [of i] that len by simp
  ultimately show ?thesis
    using len unfolding N_def by (intro exI [of _ distr] conjI allI impI)
qed

text \<open>A call that returns has run both loops without error.\<close>

lemma redf_featurize_returned:
  assumes w: "0 < dr self"
    and strc: "strc = redf_struct find_primitive add_oxidation_states s"
    and c: "c = redf_resolved_cutoff self strc"
    and r: "snd (redf_featurize fl find_primitive add_oxidation_states self s) = Inr res"
  shows "\<exists>distr. redf_sites fl (dr self) c strc
                    (replicate (nat (py_int (fl_div fl c (dr self)) + 1)) (Some 0)) (sites strc)
                  = Inr distr"
  using w r
  by (auto simp: redf_featurize_def Let_def strc [symmetric] c [symmetric]
      split: if_splits sum.splits)

text \<open>
  C5. The quotients are the float quotients the code computes. For a positive bin width,
  a configured cutoff that is not negative and a neighbour search that returns positive
  distances, every result the ReDF engine returns has \<open>floor(cutoff / dr) + 1\<close> bins with
  the centres \<open>(i + 0.5) * dr\<close>, and the value of bin \<open>i\<close> is the plain sum, over every site
  and every one of its neighbours at a distance \<open>d\<close> with \<open>floor(d / dr) = i\<close>, of
  \<open>q_origin * q_neighbor / (num_sites * d)\<close>: every ordered pair contributes, and nothing
  is normalised afterwards. The engine returns a result whenever every site and every
  neighbour carries a charge and no distance exceeds the cutoff.
\<close>

theorem redf_featurize_accumulates:
  assumes "0 < dr self" and "rounds_monotone fl"
    and "case redf_cutoff self of None \<Rightarrow> True | Some c0 \<Rightarrow> 0 \<le> c0"
    and "strc = redf_struct find_primitive add_oxidation_states s"
    and "c = redf_resolved_cutoff self strc"
    and "positive_distances strc c"
  shows "(charged_neighbors strc c \<longrightarrow>
            (\<exists>res. redf_featurize fl find_primitive add_oxidation_states self s
                     = (self\<lparr>redf_cutoff := Some c\<rparr>, Inr res))) \<and>
         (\<forall>res. snd (redf_featurize fl find_primitive add_oxidation_states self s) = Inr res \<longrightarrow>
            (\<exists>distr.
               res = [\<lparr>distances = map (\<lambda>i. (real i + 0.5) * dr self)
                                      [0 ..< nat (\<lfloor>fl_div fl c (dr self)\<rfloor> + 1)],
                        distribution = distr\<rparr>] \<and>
               length distr = nat (\<lfloor>fl_div fl c (dr self)\<rfloor> + 1) \<and>
               (\<forall>i. i < length distr \<longrightarrow>
                  distr ! i = Some (sum_list (redf_terms fl (dr self) c strc (sites strc) i)))))"
proof (intro conjI impI allI)
  note w = assms(1) and mono = assms(2) and strc = assms(4) and c = assms(5)
  have c0: "0 \<le> c" unfolding c by (rule redf_resolved_cutoff_nonneg [OF assms(3)])
  have pos: "0 < d" if "st \<in> set (sites strc)" "(nnsite, d) \<in> set (get_neighbors strc st c)"
    for st nnsite d
    using assms(6) that by (auto simp: positive_distances_def list_all_iff)
  {
    assume ch: "charged_neighbors strc c"
    have "\<exists>distr.
           redf_featurize fl find_primitive add_oxidation_states self s
             = (self\<lparr>redf_cutoff := Some c\<rparr>,
                Inr [\<lparr>distances = map (\<lambda>i. (real i + 0.5) * dr self)
                                    [0 ..< nat (\<lfloor>fl_div fl c (dr self)\<rfloor> + 1)],
                      distribution = distr\<rparr>]) \<and>
           length distr = nat (\<lfloor>fl_div fl c (dr self)\<rfloor> + 1) \<and>
           (\<forall>i. i < length distr \<longrightarrow>
              distr ! i = Some (sum_list (redf_terms fl (dr self) c strc (sites strc) i)))"
    proof (rule redf_featurize_in_range [OF w mono strc c c0])
      fix st assume st: "st \<in> set (sites strc)"
      from ch st have
        o: "(case oxi_state st of Inl e \<Rightarrow> False | Inr q \<Rightarrow> True)" and
        nb: "\<And>nnsite d. (nnsite, d) \<in> set (get_neighbors strc st c) \<Longrightarrow>
           (case oxi_state nnsite of Inl e \<Rightarrow> False | Inr q \<Rightarrow> True) \<and> 0 < d \<and> d \<le> c"
        by (auto simp: charged_neighbors_def list_all_iff)
      have "(case oxi_state nnsite of Inl e \<Rightarrow> False | Inr q \<Rightarrow> True) \<and> 0 < d \<and>
              0 \<le> fl_div fl d (dr self) \<and>
              \<lfloor>fl_div fl d (dr self)\<rfloor> < \<lfloor>fl_div fl c (dr self)\<rfloor> + 1"
        if "(nnsite, d) \<in> set (get_neighbors strc st c)" for nnsite d
      proof -
        from nb [OF that] have
          o': "(case oxi_state nnsite of Inl e \<Rightarrow> False | Inr q \<Rightarrow> True)" and
          d: "0 < d" "d \<le> c"
          by blast+
        from d(1) have "0 \<le> d" by simp
        then have q: "0 \<le> fl_div fl d (dr self)" by (rule rounds_monotone_nonneg [OF mono w])
        have "\<lfloor>fl_div fl d (dr self)\<rfloor> \<le> \<lfloor>fl_div fl c (dr self)\<rfloor>"
          by (rule rounds_monotone_floor [OF mono w d(2)])
        then have "\<lfloor>fl_div fl d (dr self)\<rfloor> < \<lfloor>fl_div fl c (dr self)\<rfloor> + 1" by linarith
        with o' d(1) q show ?thesis by blast
      qed
      with o show "(case oxi_state st of Inl e \<Rightarrow> False | Inr q \<Rightarrow> True) \<and>
           (\<forall>nnsite d. (nnsite, d) \<in> set (get_neighbors strc st c) \<longrightarrow>
              (case oxi_state nnsite of Inl e \<Rightarrow> False | Inr q \<Rightarrow> True) \<and> 0 < d \<and>
              0 \<le> fl_div fl d (dr self) \<and>
              \<lfloor>fl_div fl d (dr self)\<rfloor> < \<lfloor>fl_div fl c (dr self)\<rfloor> + 1)"
        by blast
    qed
    then show "\<exists>res. redf_featurize fl find_primitive add_oxidation_states self s
                     = (self\<lparr>redf_cutoff := Some c\<rparr>, Inr res)"
      by blast
  }
  fix res
  assume r: "snd (redf_featurize fl find_primitive add_oxidation_states self s) = Inr res"
  have q0: "0 \<le> fl_div fl c (dr self)" by (rule rounds_monotone_nonneg [OF mono w c0])
  then have f0: "0 \<le> \<lfloor>fl_div fl c (dr self)\<rfloor>" by simp
  define N where "N = nat (\<lfloor>fl_div fl c (dr self)\<rfloor> + 1)"
  have intN: "int N = \<lfloor>fl_div fl c (dr self)\<rfloor> + 1"
    using f0 unfolding N_def by linarith
  from redf_featurize_returned [OF w strc c r] obtain distr0 where
    s0: "redf_sites fl (dr self) c strc (replicate N (Some 0)) (sites strc) = Inr distr0"
    unfolding py_int_nonneg [OF q0] N_def by blast
  have "\<exists>distr.
           redf_featurize fl find_primitive add_oxidation_states self s
             = (self\<lparr>redf_cutoff := Some c\<rparr>,
                Inr [\<lparr>distances = map (\<lambda>i. (real i + 0.5) * dr self)
                                    [0 ..< nat (\<lfloor>fl_div fl c (dr self)\<rfloor> + 1)],
                      distribution = distr\<rparr>]) \<and>
           length distr = nat (\<lfloor>fl_div fl c (dr self)\<rfloor> + 1) \<and>
           (\<forall>i. i < length distr \<longrightarrow>
              distr ! i = Some (sum_list (redf_terms fl (dr self) c strc (sites strc) i)))"
  proof (rule redf_featurize_in_range [OF w mono strc c c0])
    fix st assume st: "st \<in> set (sites strc)"
    from redf_sites_returned [OF s0] st have
      o: "(case oxi_state st of Inl e \<Rightarrow> False | Inr q \<Rightarrow> True)" and
      nb: "\<And>nnsite d. (nnsite, d) \<in> set (get_neighbors strc st c) \<Longrightarrow>
             (case oxi_state nnsite of Inl e \<Rightarrow> False | Inr q \<Rightarrow> True) \<and>
             (\<exists>k. np_index N (py_int (fl_div fl d (dr self))) = Inr k)"
      by (simp_all del: ex_simps)
    have "(case oxi_state nnsite of Inl e \<Rightarrow> False | Inr q \<Rightarrow> True) \<and> 0 < d \<and>
              0 \<le> fl_div fl d (dr self) \<and>
              \<lfloor>fl_div fl d (dr self)\<rfloor> < \<lfloor>fl_div fl c (dr self)\<rfloor> + 1"
      if m: "(nnsite, d) \<in> set (get_neighbors strc st c)" for nnsite d
    proof -
      from nb [OF m] obtain k where
        o': "(case oxi_state nnsite of Inl e \<Rightarrow> False | Inr q \<Rightarrow> True)" and
        k: "np_index N (py_int (fl_div fl d (dr self))) = Inr k"
        by blast
      have d: "0 < d" by (rule pos [OF st m])
      then have "0 \<le> d" by simp
      then have q: "0 \<le> fl_div fl d (dr self)" by (rule rounds_monotone_nonneg [OF mono w])
      then have f: "0 \<le> \<lfloor>fl_div fl d (dr self)\<rfloor>" by simp
      from k have "np_index N \<lfloor>fl_div fl d (dr self)\<rfloor> = Inr k"
        unfolding py_int_nonneg [OF q] .
      from np_index_returns [OF this f] have "\<lfloor>fl_div fl d (dr self)\<rfloor> < \<lfloor>fl_div fl c (dr self)\<rfloor> + 1"
        unfolding intN .
      with o' d q show ?thesis by blast
    qed
    with o show "(case oxi_state st of Inl e \<Rightarrow> False | Inr q \<Rightarrow> True) \<and>
           (\<forall>nnsite d. (nnsite, d) \<in> set (get_neighbors strc st c) \<longrightarrow>
              (case oxi_state nnsite of Inl e \<Rightarrow> False | Inr q \<Rightarrow> True) \<and> 0 < d \<and>
              0 \<le> fl_div fl d (dr self) \<and>
              \<lfloor>fl_div fl d (dr self)\<rfloor> < \<lfloor>fl_div fl c (dr self)\<rfloor> + 1)"
      by blast
  qed
  then obtain distr where
    e: "redf_featurize fl find_primitive add_oxidation_states self s
             = (self\<lparr>redf_cutoff := Some c\<rparr>,
                Inr [\<lparr>distances = map (\<lambda>i. (real i + 0.5) * dr self)
                                    [0 ..< nat (\<lfloor>fl_div fl c (dr self)\<rfloor> + 1)],
                      distribution = distr\<rparr>])" and
    len: "length distr = nat (\<lfloor>fl_div fl c (dr self)\<rfloor> + 1)" and
    v: "\<forall>i. i < length distr \<longrightarrow>
              distr ! i = Some (sum_list (redf_terms fl (dr self) c strc (sites strc) i))"
    by blast
  from r e have "res = [\<lparr>distances = map (\<lambda>i. (real i + 0.5) * dr self)
                                      [0 ..< nat (\<lfloor>fl_div fl c (dr self)\<rfloor> + 1)],
                        distribution = distr\<rparr>]"
    by simp
  with len v show "\<exists>distr.
               res = [\<lparr>distances = map (\<lambda>i. (real i + 0.5) * dr self)
                                      [0 ..< nat (\<lfloor>fl_div fl c (dr self)\<rfloor> + 1)],
                        distribution = distr\<rparr>] \<and>
               length distr = nat (\<lfloor>fl_div fl c (dr self)\<rfloor> + 1) \<and>
               (\<forall>i. i < length distr \<longrightarrow>
                  distr ! i = Some (sum_list (redf_terms fl (dr self) c strc (sites strc) i)))"
    by blast
qed

theorem redf_featurize_accumulates_witness:
  "0 < dr (redf_init (Some 2) 1) \<and> rounds_monotone exact_ops \<and>
   (case redf_cutoff (redf_init (Some 2) 1) of None \<Rightarrow> True | Some c0 \<Rightarrow> 0 \<le> c0) \<and>
   nacl_chain = redf_struct (\<lambda>s. None) (\<lambda>s. s) nacl_chain \<and>
   2 = redf_resolved_cutoff (redf_init (Some 2) 1) nacl_chain \<and>
   positive_distances nacl_chain 2 \<and> charged_neighbors nacl_chain 2 \<and>
   redf_featurize exact_ops (\<lambda>s. None) (\<lambda>s. s) (redf_init (Some 2) 1) nacl_chain
     = ((redf_init (Some 2) 1)\<lparr>redf_cutoff := Some 2\<rparr>,
        Inr [\<lparr>distances = [1 / 2, 3 / 2, 5 / 2],
              distribution = [Some 0, Some (- 2), Some 1]\<rparr>])"
proof -
  have h1: "0 < dr (redf_init (Some 2) 1)" by (simp add: redf_init_def)
  have h2: "rounds_monotone exact_ops"
    by (simp add: rounds_monotone_def exact_ops_def divide_right_mono)
  have h3: "case redf_cutoff (redf_init (Some 2) 1) of None \<Rightarrow> True | Some c0 \<Rightarrow> 0 \<le> c0"
    by (simp add: redf_init_def)
  have h4: "nacl_chain = redf_struct (\<lambda>s. None) (\<lambda>s. s) nacl_chain"
    by (simp add: redf_struct_def)
  have h5: "2 = redf_resolved_cutoff (redf_init (Some 2) 1) nacl_chain"
    by (simp add: redf_resolved_cutoff_def redf_init_def)
  have ox: "oxi_state na_site = Inr 1" "oxi_state cl_site = Inr (- 1)"
    by (simp_all add: oxi_state_def site_specie_def site_is_ordered_def na_site_def cl_site_def)
  have ne: "na_site \<noteq> cl_site" "cl_site \<noteq> na_site"
    by (simp_all add: na_site_def cl_site_def)
  have h6: "positive_distances nacl_chain 2"
    by (simp add: positive_distances_def nacl_chain_def ne)
  have h7: "charged_neighbors nacl_chain 2"
    by (simp add: charged_neighbors_def nacl_chain_def ox ne)
  have ch: "charge_of na_site = 1" "charge_of cl_site = - 1"
    by (simp_all add: charge_of_def ox)
  have t: "sum_list (redf_terms exact_ops 1 2 nacl_chain (sites nacl_chain) 0) = 0"
    "sum_list (redf_terms exact_ops 1 2 nacl_chain (sites nacl_chain) 1) = - 2"
    "sum_list (redf_terms exact_ops 1 2 nacl_chain (sites nacl_chain) 2) = 1"
    by (simp_all add: redf_terms_def exact_ops_def nacl_chain_def num_sites_def ch ne)
  have w: "dr (redf_init (Some 2) 1) = 1" by (simp add: redf_init_def)
  have n3: "nat (\<lfloor>fl_div exact_ops 2 1\<rfloor> + 1) = 3" by (simp add: exact_ops_def)
  note th = redf_featurize_accumulates [OF h1 h2 h3 h4 h5 h6]
  from th h7 obtain res where
    r: "redf_featurize exact_ops (\<lambda>s. None) (\<lambda>s. s) (redf_init (Some 2) 1) nacl_chain
          = ((redf_init (Some 2) 1)\<lparr>redf_cutoff := Some 2\<rparr>, Inr res)"
    by blast
  then have "snd (redf_featurize exact_ops (\<lambda>s. None) (\<lambda>s. s) (redf_init (Some 2) 1) nacl_chain)
          = Inr res"
    by simp
  with th obtain distr where
    e: "res = [\<lparr>distances = map (\<lambda>i. (real i + 0.5) * dr (redf_init (Some 2) 1))
                                 [0 ..< nat (\<lfloor>fl_div exact_ops 2 (dr (redf_init (Some 2) 1))\<rfloor> + 1)],
                   distribution = distr\<rparr>]" and
    len: "length distr = nat (\<lfloor>fl_div exact_ops 2 (dr (redf_init (Some 2) 1))\<rfloor> + 1)" and
    v: "\<forall>i. i < length distr \<longrightarrow>
           distr ! i = Some (sum_list (redf_terms exact_ops (dr (redf_init (Some 2) 1)) 2 nacl_chain
                                         (sites nacl_chain) i))"
    by blast
  from len have len3: "length distr = 3" unfolding w n3 .
  from v have v': "\<And>i. i < 3 \<Longrightarrow>
      distr ! i = Some (sum_list (redf_terms exact_ops 1 2 nacl_chain (sites nacl_chain) i))"
    unfolding w len3 by blast
  have "distr ! 0 = Some 0" "distr ! 1 = Some (- 2)" "distr ! 2 = Some 1"
    using v' [of 0] v' [of 1] v' [of 2] t by simp_all
  with len3 have d: "distr = [Some 0, Some (- 2), Some 1]"
    by (intro nth_equalityI) (auto simp: less_Suc_eq numeral_3_eq_3 numeral_2_eq_2)
  have cs: "map (\<lambda>i. (real i + 0.5) * (1 :: real)) [0 ..< 3] = [1 / 2, 3 / 2, 5 / 2]"
    by (simp add: upt_conv_Cons)
  from e have "res = [\<lparr>distances = [1 / 2, 3 / 2, 5 / 2],
              distribution = [Some 0, Some (- 2), Some 1]\<rparr>]"
    unfolding w n3 cs d .
  with r have "redf_featurize exact_ops (\<lambda>s. None) (\<lambda>s. s) (redf_init (Some 2) 1) nacl_chain
     = ((redf_init (Some 2) 1)\<lparr>redf_cutoff := Some 2\<rparr>,
        Inr [\<lparr>distances = [1 / 2, 3 / 2, 5 / 2],
              distribution = [Some 0, Some (- 2), Some 1]\<rparr>])"
    by simp
  with h1 h2 h3 h4 h5 h6 h7 show ?thesis by blast
qed

end
